theory Spec2Isabelle
  imports Main "HOL-Library.AList"
begin

section \<open>Text: bytes, strings and the UTF-8 codec\<close>

text \<open>
  The server receives \<^verbatim>\<open>bytes\<close> from a socket, decodes them with
  \<^verbatim>\<open>data.decode('utf-8', errors='replace')\<close>, formats a Python \<^verbatim>\<open>str\<close> and encodes it
  again with \<^verbatim>\<open>.encode('utf-8')\<close>. A \<^verbatim>\<open>bytes\<close> value is the list of its byte values
  (each below 256), a \<^verbatim>\<open>str\<close> the list of its code points. \<open>ascii\<close> gives either for a
  literal of ASCII characters.
\<close>

type_synonym bytes = "nat list"
type_synonym str = "nat list"

definition ascii :: "string \<Rightarrow> nat list" where
  "ascii s = map of_char s"

definition REPLACEMENT :: nat where
  "REPLACEMENT = 0xFFFD"

definition is_continuation :: "nat \<Rightarrow> bool" where
  "is_continuation c = (0x80 \<le> c \<and> c < 0xC0)"

text \<open>
  One step of the decoder on the lead byte \<open>ch\<close> and the bytes after it: the code point
  produced and the number of following bytes consumed with it. A malformed or truncated
  sequence yields U+FFFD for its maximal invalid prefix (an invalid start byte alone, a lead
  byte with the continuation bytes that were still acceptable, or everything up to the end
  of the data when the sequence is cut short).
\<close>

definition decode2 :: "nat \<Rightarrow> nat list \<Rightarrow> nat \<times> nat" where
  "decode2 ch bs =
     (case bs of
        [] \<Rightarrow> (REPLACEMENT, 0)
      | ch2 # _ \<Rightarrow>
          if \<not> is_continuation ch2 then (REPLACEMENT, 0)
          else ((ch - 0xC0) * 64 + (ch2 - 0x80), 1))"

definition decode3 :: "nat \<Rightarrow> nat list \<Rightarrow> nat \<times> nat" where
  "decode3 ch bs =
     (case bs of
        [] \<Rightarrow> (REPLACEMENT, 0)
      | [ch2] \<Rightarrow>
          if \<not> is_continuation ch2 \<or> (if ch2 < 0xA0 then ch = 0xE0 else ch = 0xED)
          then (REPLACEMENT, 0) else (REPLACEMENT, 1)
      | ch2 # ch3 # _ \<Rightarrow>
          if \<not> is_continuation ch2 then (REPLACEMENT, 0)
          else if ch = 0xE0 \<and> ch2 < 0xA0 then (REPLACEMENT, 0)
          else if ch = 0xED \<and> 0xA0 \<le> ch2 then (REPLACEMENT, 0)
          else if \<not> is_continuation ch3 then (REPLACEMENT, 1)
          else ((ch - 0xE0) * 4096 + (ch2 - 0x80) * 64 + (ch3 - 0x80), 2))"

definition decode4 :: "nat \<Rightarrow> nat list \<Rightarrow> nat \<times> nat" where
  "decode4 ch bs =
     (case bs of
        [] \<Rightarrow> (REPLACEMENT, 0)
      | ch2 # bs2 \<Rightarrow>
          if \<not> is_continuation ch2 then (REPLACEMENT, 0)
          else if ch = 0xF0 \<and> ch2 < 0x90 then (REPLACEMENT, 0)
          else if ch = 0xF4 \<and> 0x90 \<le> ch2 then (REPLACEMENT, 0)
          else (case bs2 of
                  [] \<Rightarrow> (REPLACEMENT, 1)
                | ch3 # bs3 \<Rightarrow>
                    if \<not> is_continuation ch3 then (REPLACEMENT, 1)
                    else (case bs3 of
                            [] \<Rightarrow> (REPLACEMENT, 2)
                          | ch4 # _ \<Rightarrow>
                              if \<not> is_continuation ch4 then (REPLACEMENT, 2)
                              else ((ch - 0xF0) * 262144 + (ch2 - 0x80) * 4096
                                     + (ch3 - 0x80) * 64 + (ch4 - 0x80), 3))))"

definition decode_step :: "nat \<Rightarrow> nat list \<Rightarrow> nat \<times> nat" where
  "decode_step ch bs =
     (if ch < 0x80 then (ch, 0)
      else if ch < 0xC2 then (REPLACEMENT, 0)
      else if ch < 0xE0 then decode2 ch bs
      else if ch < 0xF0 then decode3 ch bs
      else if ch < 0xF5 then decode4 ch bs
      else (REPLACEMENT, 0))"

text \<open>\<^verbatim>\<open>data.decode('utf-8', errors='replace')\<close>: never raises.\<close>

fun decode :: "bytes \<Rightarrow> str" where
  "decode [] = []"
| "decode (ch # bs) =
     (case decode_step ch bs of (cp, k) \<Rightarrow> cp # decode (drop k bs))"

text \<open>
  \<^verbatim>\<open>s.encode('utf-8')\<close> raises UnicodeEncodeError on a surrogate code point; the result is
  \<open>None\<close> then.
\<close>

definition encode_point :: "nat \<Rightarrow> bytes option" where
  "encode_point cp =
     (if cp < 0x80 then Some [cp]
      else if cp < 0x800 then Some [0xC0 + cp div 64, 0x80 + cp mod 64]
      else if cp < 0x10000 then
        (if 0xD800 \<le> cp \<and> cp < 0xE000 then None
         else Some [0xE0 + cp div 4096, 0x80 + cp div 64 mod 64, 0x80 + cp mod 64])
      else if cp < 0x110000 then
        Some [0xF0 + cp div 262144, 0x80 + cp div 4096 mod 64,
              0x80 + cp div 64 mod 64, 0x80 + cp mod 64]
      else None)"

fun encode :: "str \<Rightarrow> bytes option" where
  "encode [] = Some []"
| "encode (cp # s) =
     (case encode_point cp of
        None \<Rightarrow> None
      | Some bs \<Rightarrow> (case encode s of None \<Rightarrow> None | Some r \<Rightarrow> Some (bs @ r)))"

text \<open>\<^verbatim>\<open>str.isspace\<close> on one character, as \<^verbatim>\<open>str.strip()\<close> uses it.\<close>

definition is_space :: "nat \<Rightarrow> bool" where
  "is_space c =
     ((0x09 \<le> c \<and> c \<le> 0x0D) \<or> (0x1C \<le> c \<and> c \<le> 0x20) \<or> c = 0x85 \<or> c = 0xA0
      \<or> c = 0x1680 \<or> (0x2000 \<le> c \<and> c \<le> 0x200A) \<or> c = 0x2028 \<or> c = 0x2029
      \<or> c = 0x202F \<or> c = 0x205F \<or> c = 0x3000)"

definition strip :: "str \<Rightarrow> str" where
  "strip s = rev (dropWhile is_space (rev (dropWhile is_space s)))"

definition NEWLINE :: nat where
  "NEWLINE = 0x0A"

text \<open>\<^verbatim>\<open>text.endswith("\n")\<close>\<close>

definition endswith_newline :: "str \<Rightarrow> bool" where
  "endswith_newline s = (s \<noteq> [] \<and> last s = NEWLINE)"

text \<open>
  Lines 132-133 of \<^verbatim>\<open>handle_client\<close>:
  \<^verbatim>\<open>if not text.endswith("\n"): text = text + "\n"\<close>
\<close>

definition terminate_line :: "str \<Rightarrow> str" where
  "terminate_line s = (if \<not> endswith_newline s then s @ [NEWLINE] else s)"


section \<open>The server's shared state\<close>

text \<open>
  A connection (a socket object) and a queue object are identified by a number. The
  registry \<^verbatim>\<open>clients\<close> is a Python dict: an association list in insertion order with unique
  keys. A client record holds a reference to its queue, not the queue: \<open>queues\<close> is the store
  of every \<^verbatim>\<open>queue.Queue()\<close> created so far and \<open>next_qid\<close> the next fresh reference. A queue
  item is a payload or \<^verbatim>\<open>None\<close>, the close sentinel.
\<close>

type_synonym sock = nat
type_synonym qid = nat
type_synonym item = "bytes option"
type_synonym address = "string \<times> nat"

record client =
  name :: str
  queue :: qid
  addr :: address

datatype event =
    Ev_register sock
  | Ev_pop sock
  | Ev_clear
  | Ev_put qid item
  | Ev_send sock bytes
  | Ev_close sock
  | Ev_close_listener
  | Ev_set_shutdown
  | Ev_join sock
  | Ev_join_sender sock

text \<open>
  \<open>closed\<close>: the sockets already closed; \<open>sent\<close>: what \<^verbatim>\<open>sendall\<close> has written to each
  socket; \<open>listening\<close>: \<^verbatim>\<open>server_sock\<close> is open; \<open>threads\<close>: the receiver threads appended by
  the accept loop, each named by its socket; \<open>trace\<close>: the effects on shared objects in the
  order they happened. \<^verbatim>\<open>print\<close> and \<^verbatim>\<open>traceback.print_exc\<close> are not part of the state.
\<close>

record state =
  clients :: "(sock \<times> client) list"
  queues :: "qid \<Rightarrow> item list"
  next_qid :: qid
  shutting_down :: bool
  closed :: "sock set"
  sent :: "sock \<Rightarrow> bytes list"
  listening :: bool
  threads :: "sock list"
  trace :: "event list"

text \<open>The module's top level (lines 10-20): a listening socket, an empty registry.\<close>

definition init :: state where
  "init = \<lparr>clients = [], queues = (\<lambda>_. []), next_qid = 0, shutting_down = False,
           closed = {}, sent = (\<lambda>_. []), listening = True, threads = [], trace = []\<rparr>"

datatype exn = OSError | KeyError | UnicodeEncodeError

subsection \<open>Queues\<close>

text \<open>\<^verbatim>\<open>queue.Queue()\<close>: a new, empty, unbounded queue.\<close>

definition new_queue :: "state \<Rightarrow> qid \<times> state" where
  "new_queue st =
     (next_qid st, st\<lparr>queues := (queues st)(next_qid st := []), next_qid := Suc (next_qid st)\<rparr>)"

text \<open>\<^verbatim>\<open>q.put(item)\<close> on an unbounded queue never blocks and never raises.\<close>

definition put :: "qid \<Rightarrow> item \<Rightarrow> state \<Rightarrow> state" where
  "put q x st = st\<lparr>queues := (queues st)(q := queues st q @ [x]), trace := trace st @ [Ev_put q x]\<rparr>"

subsection \<open>Sockets\<close>

text \<open>
  \<^verbatim>\<open>sock.shutdown\<close> raises OSError on a closed socket; \<^verbatim>\<open>sock.close()\<close> of a closed socket
  does nothing.
\<close>

definition sock_shutdown :: "sock \<Rightarrow> state \<Rightarrow> exn + state" where
  "sock_shutdown s st = (if s \<in> closed st then Inl OSError else Inr st)"

definition sock_close :: "sock \<Rightarrow> state \<Rightarrow> exn + state" where
  "sock_close s st =
     (if s \<in> closed st then Inr st
      else Inr (st\<lparr>closed := insert s (closed st), trace := trace st @ [Ev_close s]\<rparr>))"

text \<open>Lines 23-32: both calls are wrapped in \<^verbatim>\<open>try: ... except Exception: pass\<close>.\<close>

definition safe_close :: "sock \<Rightarrow> state \<Rightarrow> state" where
  "safe_close s st =
     (let st1 = (case sock_shutdown s st of Inl _ \<Rightarrow> st | Inr st' \<Rightarrow> st')
      in (case sock_close s st1 of Inl _ \<Rightarrow> st1 | Inr st' \<Rightarrow> st'))"

text \<open>
  \<^verbatim>\<open>sock.sendall(b)\<close>: raises on a closed socket or when the network fails. The environment
  \<open>net s n\<close> tells whether the write on socket \<open>s\<close> succeeds after \<open>n\<close> payloads were
  written to it.
\<close>

definition sendall :: "(sock \<Rightarrow> nat \<Rightarrow> bool) \<Rightarrow> sock \<Rightarrow> bytes \<Rightarrow> state \<Rightarrow> exn + state" where
  "sendall net s b st =
     (if s \<in> closed st \<or> \<not> net s (length (sent st s)) then Inl OSError
      else Inr (st\<lparr>sent := (sent st)(s := sent st s @ [b]), trace := trace st @ [Ev_send s b]\<rparr>))"

text \<open>
  The outcome of one \<^verbatim>\<open>sock.recv\<close>: bytes (empty when the peer closed),
  \<^verbatim>\<open>socket.timeout\<close>, a connection error (ConnectionResetError, ConnectionAbortedError,
  OSError) or any other exception. A closed socket gives OSError.
\<close>

datatype recv_result = Data bytes | Timeout | Conn_error | Other_error

definition recv :: "sock \<Rightarrow> recv_result \<Rightarrow> state \<Rightarrow> recv_result" where
  "recv s r st = (if s \<in> closed st then Conn_error else r)"

subsection \<open>The registry\<close>

text \<open>Lines 102-103: \<^verbatim>\<open>clients[sock] = {"name": name, "queue": send_queue, "addr": addr}\<close>\<close>

definition register :: "sock \<Rightarrow> client \<Rightarrow> state \<Rightarrow> state" where
  "register s c st =
     st\<lparr>clients := AList.update s c (clients st), trace := trace st @ [Ev_register s]\<rparr>"

text \<open>\<^verbatim>\<open>clients.pop(sock)\<close>: KeyError when the key is absent.\<close>

definition dict_pop :: "sock \<Rightarrow> state \<Rightarrow> exn + (client \<times> state)" where
  "dict_pop s st =
     (case map_of (clients st) s of
        None \<Rightarrow> Inl KeyError
      | Some c \<Rightarrow>
          Inr (c, st\<lparr>clients := AList.delete s (clients st), trace := trace st @ [Ev_pop s]\<rparr>))"

definition DESCONOCIDO :: str where
  "DESCONOCIDO = ascii ''Desconocido''"

text \<open>
  Lines 144-148, under the lock:
  \<^verbatim>\<open>if sock in clients: left = clients.pop(sock)["name"]
else: left = name or "Desconocido"\<close>
\<close>

definition deregister :: "sock \<Rightarrow> str option \<Rightarrow> state \<Rightarrow> exn + (str \<times> state)" where
  "deregister s nm st =
     (if s \<in> set (map fst (clients st)) then
        (case dict_pop s st of Inl e \<Rightarrow> Inl e | Inr (c, st') \<Rightarrow> Inr (name c, st'))
      else
        Inr (case nm of None \<Rightarrow> DESCONOCIDO | Some n \<Rightarrow> if n = [] then DESCONOCIDO else n, st))"

text \<open>\<^verbatim>\<open>clients.clear()\<close>\<close>

definition clear_registry :: "state \<Rightarrow> state" where
  "clear_registry st = st\<lparr>clients := [], trace := trace st @ [Ev_clear]\<rparr>"

text \<open>\<^verbatim>\<open>shutting_down.set()\<close>: setting a set Event changes nothing.\<close>

definition set_shutdown :: "state \<Rightarrow> state" where
  "set_shutdown st =
     (if shutting_down st then st
      else st\<lparr>shutting_down := True, trace := trace st @ [Ev_set_shutdown]\<rparr>)"

subsection \<open>Broadcast\<close>

text \<open>
  Lines 62-78. Under the lock:
  \<^verbatim>\<open>targets = [s for s in clients.keys() if s is not exclude_sock]
queues = [clients[s]["queue"] for s in targets]\<close>
  Every target is a key of the dict, so \<^verbatim>\<open>clients[s]\<close> does not raise. Then, outside the
  lock, \<^verbatim>\<open>q.put(msg_bytes)\<close> for each queue of the snapshot.
\<close>

definition snapshot :: "sock option \<Rightarrow> state \<Rightarrow> qid list" where
  "snapshot exclude_sock st =
     (let targets = filter (\<lambda>s. Some s \<noteq> exclude_sock) (map fst (clients st))
      in concat (map (\<lambda>s. case map_of (clients st) s of None \<Rightarrow> [] | Some c \<Rightarrow> [queue c])
                     targets))"

definition enqueue_all :: "qid list \<Rightarrow> item \<Rightarrow> state \<Rightarrow> state" where
  "enqueue_all qs x st = fold (\<lambda>q. put q x) qs st"

definition broadcast :: "bytes \<Rightarrow> sock option \<Rightarrow> state \<Rightarrow> state" where
  "broadcast msg_bytes exclude_sock st =
     enqueue_all (snapshot exclude_sock st) (Some msg_bytes) st"

text \<open>
  The registry is well formed when its keys are distinct (it is a dict), no two records
  share a queue and every queue in it has been created.
\<close>

definition registry_ok :: "state \<Rightarrow> bool" where
  "registry_ok st =
     (distinct (map fst (clients st)) \<and> distinct (map (queue \<circ> snd) (clients st))
      \<and> list_all (\<lambda>p. queue (snd p) < next_qid st) (clients st))"

section \<open>The sender thread\<close>

datatype loop_exit = Blocked | Left

text \<open>
  Lines 35-59, \<^verbatim>\<open>sender_thread_func(sock, send_queue, name)\<close>. \<^verbatim>\<open>send_queue.get()\<close> blocks on
  an empty queue: the run stops there with \<open>Blocked\<close>, the thread still alive. \<open>Left\<close>: the
  loop was left by a \<^verbatim>\<open>break\<close> and the thread returned.
\<close>

function sender_thread_func ::
  "(sock \<Rightarrow> nat \<Rightarrow> bool) \<Rightarrow> sock \<Rightarrow> qid \<Rightarrow> state \<Rightarrow> loop_exit \<times> state" where
  "sender_thread_func net sock send_queue st =
     (case queues st send_queue of
        [] \<Rightarrow> (Blocked, st)
      | x # rest \<Rightarrow>
          (let st1 = st\<lparr>queues := (queues st)(send_queue := rest)\<rparr>
           in case x of
                None \<Rightarrow> (Left, st1)
              | Some b \<Rightarrow>
                  (case sendall net sock b st1 of
                     Inl _ \<Rightarrow> (Left, st1)
                   | Inr st2 \<Rightarrow> sender_thread_func net sock send_queue st2)))"
  by pat_completeness auto
termination
  by (relation "measure (\<lambda>(net, sock, q, st). length (queues st q))")
     (auto simp: sendall_def split: if_splits)

declare sender_thread_func.simps [simp del]

section \<open>The receiver thread\<close>

definition WELCOME :: str where
  "WELCOME = ascii '' Bienvenido al chat. Escrib'' @ [0xED] @ ascii '' tu nombre: ''"

definition ANON :: str where
  "ANON = ascii ''Anon''"

text \<open>Line 110, the join notice: the name between a space and a fixed text (o acute is U+00F3).\<close>

definition join_notice :: "str \<Rightarrow> str" where
  "join_notice nm = ascii '' '' @ nm @ ascii '' se uni'' @ [0xF3] @ ascii '' al chat.'' @ [NEWLINE]"

text \<open>Line 151, the leave notice.\<close>

definition leave_notice :: "str \<Rightarrow> str" where
  "leave_notice left =
     ascii '' '' @ left @ ascii '' abandon'' @ [0xF3] @ ascii '' el chat.'' @ [NEWLINE]"

text \<open>\<^verbatim>\<open>f"{name}: {text}"\<close>\<close>

definition chat_line :: "str \<Rightarrow> str \<Rightarrow> str" where
  "chat_line nm text = nm @ ascii '': '' @ text"

text \<open>
  The local variables of \<^verbatim>\<open>handle_client\<close> that its \<^verbatim>\<open>finally\<close> block reads:
  \<^verbatim>\<open>name\<close> (\<^verbatim>\<open>None\<close> until the handshake gives one), \<^verbatim>\<open>send_queue\<close>, and whether
  \<^verbatim>\<open>send_thread\<close> was started.
\<close>

record frame =
  fr_name :: "str option"
  send_queue :: qid
  send_thread :: bool

datatype flow = Proceed str | Leave

text \<open>
  Lines 89-107: from the creation of the queue to the registration of the client and the
  start of its sender thread. \<open>Proceed name\<close>: the client is registered. \<open>Leave\<close>: an
  exception was raised (the \<^verbatim>\<open>except Exception\<close> clause only prints) or the function
  returned; in both cases the \<^verbatim>\<open>finally\<close> block runs next. \<open>first\<close> is the outcome of
  \<^verbatim>\<open>sock.recv(1024)\<close>.
\<close>

definition handshake_register ::
  "(sock \<Rightarrow> nat \<Rightarrow> bool) \<Rightarrow> sock \<Rightarrow> address \<Rightarrow> recv_result \<Rightarrow> state \<Rightarrow> flow \<times> frame \<times> state" where
  "handshake_register net sock ad first st0 =
     (case new_queue st0 of (q, st) \<Rightarrow>
      let fr = \<lparr>fr_name = None, send_queue = q, send_thread = False\<rparr> in
      case encode WELCOME of
        None \<Rightarrow> (Leave, fr, st)
      | Some w \<Rightarrow>
      (case sendall net sock w st of
        Inl _ \<Rightarrow> (Leave, fr, st)
      | Inr st1 \<Rightarrow>
      (case recv sock first st1 of
        Data data \<Rightarrow>
          if data = [] then (Leave, fr, safe_close sock st1)
          else
            let nm = (let n = strip (decode data) in if n = [] then ANON else n);
                st2 = register sock \<lparr>name = nm, queue = q, addr = ad\<rparr> st1;
                fr2 = fr\<lparr>fr_name := Some nm, send_thread := True\<rparr>
            in (Proceed nm, fr2, st2)
      | _ \<Rightarrow> (Leave, fr, st1))))"

text \<open>
  Lines 89-113: the registration, then the broadcast of the join notice (line 110), up to
  the start of the receive loop. \<open>Proceed name\<close>: the loop is entered.
\<close>

definition handshake ::
  "(sock \<Rightarrow> nat \<Rightarrow> bool) \<Rightarrow> sock \<Rightarrow> address \<Rightarrow> recv_result \<Rightarrow> state \<Rightarrow> flow \<times> frame \<times> state" where
  "handshake net sock ad first st =
     (case handshake_register net sock ad first st of
        (Leave, fr, st1) \<Rightarrow> (Leave, fr, st1)
      | (Proceed nm, fr2, st2) \<Rightarrow>
          (case encode (join_notice nm) of
             None \<Rightarrow> (Leave, fr2, st2)
           | Some m \<Rightarrow> (Proceed nm, fr2, broadcast m (Some sock) st2)))"

text \<open>
  Lines 127-135, the body of the loop once \<^verbatim>\<open>recv\<close> has returned \<open>data\<close>: \<open>None\<close> is the
  \<^verbatim>\<open>break\<close> (an empty read, or an exception that leaves the \<^verbatim>\<open>try\<close>).
\<close>

definition on_data :: "sock \<Rightarrow> str \<Rightarrow> bytes \<Rightarrow> state \<Rightarrow> state option" where
  "on_data sock nm data st =
     (if data = [] then None
      else
        (case encode (chat_line nm (terminate_line (decode data))) of
           None \<Rightarrow> None
         | Some m \<Rightarrow> Some (broadcast m (Some sock) st)))"

text \<open>
  Lines 115-135: the receive loop on the outcomes of the successive \<^verbatim>\<open>sock.recv(4096)\<close>.
  When the outcomes are used up the thread is blocked in \<^verbatim>\<open>recv\<close>.
\<close>

fun recv_loop :: "sock \<Rightarrow> str \<Rightarrow> recv_result list \<Rightarrow> state \<Rightarrow> loop_exit \<times> state" where
  "recv_loop sock nm [] st = (if shutting_down st then (Left, st) else (Blocked, st))"
| "recv_loop sock nm (ev # evs) st =
     (if shutting_down st then (Left, st)
      else
        (case recv sock ev st of
           Timeout \<Rightarrow> recv_loop sock nm evs st
         | Conn_error \<Rightarrow> (Left, st)
         | Other_error \<Rightarrow> (Left, st)
         | Data data \<Rightarrow>
             (case on_data sock nm data st of
                None \<Rightarrow> (Left, st)
              | Some st' \<Rightarrow> recv_loop sock nm evs st')))"

text \<open>\<^verbatim>\<open>send_thread.join(timeout=0.5)\<close>: a bounded wait.\<close>

definition join_sender :: "sock \<Rightarrow> state \<Rightarrow> state" where
  "join_sender s st = st\<lparr>trace := trace st @ [Ev_join_sender s]\<rparr>"

text \<open>
  Lines 141-162, the \<^verbatim>\<open>finally\<close> block. An exception in the inner \<^verbatim>\<open>try\<close> skips the
  broadcast and goes on with the inner \<^verbatim>\<open>finally\<close>.
\<close>

definition cleanup :: "sock \<Rightarrow> frame \<Rightarrow> state \<Rightarrow> state" where
  "cleanup sock fr st =
     (let st2 = (case deregister sock (fr_name fr) st of
                   Inl _ \<Rightarrow> st
                 | Inr (left, st1) \<Rightarrow>
                     (case encode (leave_notice left) of
                        None \<Rightarrow> st1
                      | Some m \<Rightarrow> broadcast m (Some sock) st1));
          st3 = put (send_queue fr) None st2;
          st4 = safe_close sock st3
      in if send_thread fr then join_sender sock st4 else st4)"

text \<open>\<^verbatim>\<open>handle_client(sock, addr)\<close>, lines 81-162.\<close>

definition handle_client ::
  "(sock \<Rightarrow> nat \<Rightarrow> bool) \<Rightarrow> sock \<Rightarrow> address \<Rightarrow> recv_result \<Rightarrow> recv_result list \<Rightarrow> state
     \<Rightarrow> loop_exit \<times> state" where
  "handle_client net sock ad first evs st =
     (case handshake net sock ad first st of
        (Leave, fr, st1) \<Rightarrow> (Left, cleanup sock fr st1)
      | (Proceed nm, fr, st1) \<Rightarrow>
          (case recv_loop sock nm evs st1 of
             (Blocked, st2) \<Rightarrow> (Blocked, st2)
           | (Left, st2) \<Rightarrow> (Left, cleanup sock fr st2)))"

section \<open>The accept loop and the shutdown\<close>

text \<open>
  The outcome of one \<^verbatim>\<open>server_sock.accept()\<close>: a connection, \<^verbatim>\<open>socket.timeout\<close>, OSError,
  or a KeyboardInterrupt raised in the main thread. A closed listening socket gives OSError.
  A KeyboardInterrupt raised in the body of the loop before \<^verbatim>\<open>threads.append(t)\<close> leaves
  the loop the same way, with \<^verbatim>\<open>threads\<close> as it was, so \<open>Interrupt\<close> stands for it too.
\<close>

datatype accept_result = Accepted sock address | Accept_timeout | Accept_error | Interrupt

definition accept :: "accept_result \<Rightarrow> state \<Rightarrow> accept_result" where
  "accept r st = (case r of Interrupt \<Rightarrow> Interrupt | _ \<Rightarrow> if listening st then r else Accept_error)"

text \<open>
  Lines 167-181, the accept loop. An accepted connection gets a thread running
  \<^verbatim>\<open>handle_client\<close>, appended to \<^verbatim>\<open>threads\<close>; what the thread does is \<open>handle_client\<close>
  above. \<open>Waiting\<close>: the outcomes are used up, the loop is still accepting. \<open>Broke\<close>: the
  loop was left by a \<^verbatim>\<open>break\<close>. \<open>Interrupted\<close>: a KeyboardInterrupt left it, to be caught
  by the handler of line 182.
\<close>

datatype accept_exit = Waiting | Broke | Interrupted

fun accept_loop :: "accept_result list \<Rightarrow> state \<Rightarrow> accept_exit \<times> state" where
  "accept_loop [] st = (Waiting, st)"
| "accept_loop (ev # evs) st =
     (case accept ev st of
        Accepted s ad \<Rightarrow> accept_loop evs (st\<lparr>threads := threads st @ [s]\<rparr>)
      | Accept_timeout \<Rightarrow> if shutting_down st then (Broke, st) else accept_loop evs st
      | Accept_error \<Rightarrow> (Broke, st)
      | Interrupt \<Rightarrow> (Interrupted, st))"

text \<open>
  Lines 193-195, under the lock:
  \<^verbatim>\<open>if s in clients: clients[s]["queue"].put(None)\<close>
\<close>

definition put_sentinel :: "sock \<Rightarrow> state \<Rightarrow> state" where
  "put_sentinel s st =
     (case map_of (clients st) s of None \<Rightarrow> st | Some c \<Rightarrow> put (queue c) None st)"

text \<open>
  Lines 190-198, one round of the loop over the snapshot: the sentinel, then
  \<^verbatim>\<open>safe_close(s)\<close>.
\<close>

definition close_client :: "sock \<Rightarrow> state \<Rightarrow> state" where
  "close_client s st = safe_close s (put_sentinel s st)"

text \<open>\<^verbatim>\<open>server_sock.close()\<close>\<close>

definition close_listener :: "state \<Rightarrow> state" where
  "close_listener st =
     (if listening st then st\<lparr>listening := False, trace := trace st @ [Ev_close_listener]\<rparr>
      else st)"

text \<open>\<^verbatim>\<open>t.join(timeout=0.5)\<close>: a bounded wait.\<close>

definition join_thread :: "sock \<Rightarrow> state \<Rightarrow> state" where
  "join_thread t st = st\<lparr>trace := trace st @ [Ev_join t]\<rparr>"

text \<open>\<^verbatim>\<open>for t in threads: t.join(timeout=0.5)\<close>\<close>

definition join_threads :: "state \<Rightarrow> state" where
  "join_threads st = st\<lparr>trace := trace st @ map Ev_join (threads st)\<rparr>"

text \<open>Lines 185-212, the \<^verbatim>\<open>finally\<close> block of \<^verbatim>\<open>main\<close>, run to its end.\<close>

definition main_finally :: "state \<Rightarrow> state" where
  "main_finally st =
     (let socks = map fst (clients st);
          st1 = fold close_client socks st;
          st2 = close_listener st1;
          st3 = join_threads st2
      in clear_registry st3)"

text \<open>
  The same block as the list of its statements, in order: a KeyboardInterrupt raised inside
  the block is caught by none of its \<^verbatim>\<open>except Exception\<close> clauses, so it ends the block
  after the statements already run.
\<close>

definition finally_steps :: "state \<Rightarrow> (state \<Rightarrow> state) list" where
  "finally_steps st =
     concat (map (\<lambda>s. [put_sentinel s, safe_close s]) (map fst (clients st)))
     @ [close_listener] @ map join_thread (threads st) @ [clear_registry]"

definition run_steps :: "(state \<Rightarrow> state) list \<Rightarrow> state \<Rightarrow> state" where
  "run_steps fs st = fold (\<lambda>f s. f s) fs st"

text \<open>
  \<^verbatim>\<open>main()\<close>, lines 165-212, called once. \<open>evs\<close> are the outcomes of the successive
  \<^verbatim>\<open>accept\<close> calls. The handler of a caught KeyboardInterrupt (lines 182-184) prints and
  then sets the shutdown signal. \<open>again = Some k\<close>: one more KeyboardInterrupt is raised in
  the main thread once \<open>k\<close> of the statements that follow the loop have run, those of the
  handler first, then those of the \<^verbatim>\<open>finally\<close> block. Raised inside the handler it skips
  the rest of the handler, the \<^verbatim>\<open>finally\<close> block runs and the exception leaves \<^verbatim>\<open>main\<close>;
  raised inside the \<^verbatim>\<open>finally\<close> block it ends the block there. \<open>Accepting\<close>: the loop is
  still running. \<open>Returned\<close>: \<^verbatim>\<open>main\<close> returned. \<open>Raised\<close>: the exception left \<^verbatim>\<open>main\<close>.
\<close>

datatype main_exit = Accepting | Returned | Raised

definition main :: "accept_result list \<Rightarrow> nat option \<Rightarrow> state \<Rightarrow> main_exit \<times> state" where
  "main evs again st =
     (case accept_loop evs st of (ex, st1) \<Rightarrow>
        if ex = Waiting then (Accepting, st1)
        else
          (let handler = (if ex = Interrupted then [set_shutdown] else [])
           in case again of
                None \<Rightarrow> (Returned, main_finally (run_steps handler st1))
              | Some k \<Rightarrow>
                  if k < length handler
                  then (Raised, main_finally (run_steps (take k handler) st1))
                  else
                    (let st2 = run_steps handler st1;
                         j = k - length handler
                     in if j < length (finally_steps st2)
                        then (Raised, run_steps (take j (finally_steps st2)) st2)
                        else (Returned, main_finally st2))))"

section \<open>Executions\<close>

text \<open>\<^verbatim>\<open>send_queue.get()\<close> of the sender: the head leaves the queue; an empty queue blocks.\<close>

definition get_item :: "qid \<Rightarrow> state \<Rightarrow> state" where
  "get_item q st =
     (case queues st q of [] \<Rightarrow> st | x # rest \<Rightarrow> st\<lparr>queues := (queues st)(q := rest)\<rparr>)"

text \<open>
  An execution of the server is a sequence of steps of its threads on the shared state.
  Every single effect on a shared object is a step of its own: one \<^verbatim>\<open>put\<close>, one
  \<^verbatim>\<open>get\<close>, one \<^verbatim>\<open>sendall\<close>, the registration, the deregistration, one close, and so
  on. A broadcast takes its snapshot under the lock and does its puts after releasing it
  (lines 67-75), so in an execution the puts of a broadcast are separate \<open>Do_put\<close> steps and
  steps of other threads may come between the snapshot and each of them. The registration
  of a client (lines 89-107) is one step: the queue it creates and the socket it writes the
  welcome to are known to no other thread before the client is in the registry. The
  functions of the server are steps too, for the executions in which nothing comes in
  between. The arguments of a step are not restricted, so every interleaving of the real
  threads is among the runs.
\<close>

datatype action =
    Do_put qid item
  | Do_get qid
  | Do_sendall sock bytes
  | Do_handshake_register sock address recv_result
  | Do_deregister sock "str option"
  | Do_safe_close sock
  | Do_put_sentinel sock
  | Do_set_shutdown
  | Do_close_listener
  | Do_join sock
  | Do_join_sender sock
  | Do_clear_registry
  | Do_handshake sock address recv_result
  | Do_on_data sock str bytes
  | Do_recv_loop sock str "recv_result list"
  | Do_cleanup sock frame
  | Do_handle_client sock address recv_result "recv_result list"
  | Do_sender sock qid
  | Do_broadcast bytes "sock option"
  | Do_accept_loop "accept_result list"
  | Do_close_client sock
  | Do_main_finally
  | Do_main "accept_result list" "nat option"

definition step :: "(sock \<Rightarrow> nat \<Rightarrow> bool) \<Rightarrow> action \<Rightarrow> state \<Rightarrow> state" where
  "step net a st =
     (case a of
        Do_put q x \<Rightarrow> put q x st
      | Do_get q \<Rightarrow> get_item q st
      | Do_sendall s b \<Rightarrow> (case sendall net s b st of Inl _ \<Rightarrow> st | Inr st' \<Rightarrow> st')
      | Do_handshake_register s ad first \<Rightarrow> snd (snd (handshake_register net s ad first st))
      | Do_deregister s nm \<Rightarrow> (case deregister s nm st of Inl _ \<Rightarrow> st | Inr (_, st') \<Rightarrow> st')
      | Do_safe_close s \<Rightarrow> safe_close s st
      | Do_put_sentinel s \<Rightarrow> put_sentinel s st
      | Do_set_shutdown \<Rightarrow> set_shutdown st
      | Do_close_listener \<Rightarrow> close_listener st
      | Do_join t \<Rightarrow> join_thread t st
      | Do_join_sender s \<Rightarrow> join_sender s st
      | Do_clear_registry \<Rightarrow> clear_registry st
      | Do_handshake s ad first \<Rightarrow> snd (snd (handshake net s ad first st))
      | Do_on_data s nm data \<Rightarrow> (case on_data s nm data st of None \<Rightarrow> st | Some st' \<Rightarrow> st')
      | Do_recv_loop s nm evs \<Rightarrow> snd (recv_loop s nm evs st)
      | Do_cleanup s fr \<Rightarrow> cleanup s fr st
      | Do_handle_client s ad first evs \<Rightarrow> snd (handle_client net s ad first evs st)
      | Do_sender s q \<Rightarrow> snd (sender_thread_func net s q st)
      | Do_broadcast m ex \<Rightarrow> broadcast m ex st
      | Do_accept_loop evs \<Rightarrow> snd (accept_loop evs st)
      | Do_close_client s \<Rightarrow> close_client s st
      | Do_main_finally \<Rightarrow> main_finally st
      | Do_main evs again \<Rightarrow> snd (main evs again st))"

definition run :: "(sock \<Rightarrow> nat \<Rightarrow> bool) \<Rightarrow> action list \<Rightarrow> state \<Rightarrow> state" where
  "run net acts st = fold (step net) acts st"

section \<open>Notions used in the statements\<close>

text \<open>A Unicode scalar value: a code point that is not a surrogate.\<close>

definition scalar :: "nat \<Rightarrow> bool" where
  "scalar cp = (cp < 0x110000 \<and> \<not> (0xD800 \<le> cp \<and> cp < 0xE000))"

text \<open>
  A queue is detached when it has been created and no record of the registry refers to it.
\<close>

definition detached :: "qid \<Rightarrow> state \<Rightarrow> bool" where
  "detached q st = (q < next_qid st \<and> q \<notin> set (map (queue \<circ> snd) (clients st)))"

text \<open>The ordinary payloads of a queue, the sentinels left out.\<close>

definition payloads :: "item list \<Rightarrow> bytes list" where
  "payloads xs = concat (map (\<lambda>x. case x of None \<Rightarrow> [] | Some b \<Rightarrow> [b]) xs)"


text \<open>
  What every step of the server keeps: a set shutdown signal stays set, a well-formed
  registry stays well formed, and a detached queue stays detached.
\<close>

definition evolves :: "state \<Rightarrow> state \<Rightarrow> bool" where
  "evolves st st' =
     ((shutting_down st \<longrightarrow> shutting_down st')
      \<and> (registry_ok st \<longrightarrow> registry_ok st')
      \<and> (\<forall>q. detached q st \<longrightarrow> detached q st'))"

text \<open>
  A concrete run: a network that never fails, and the state once the clients on sockets 1
  and 2 have sent the names Ana and Leo and both are in their receive loops.
\<close>

definition net_up :: "sock \<Rightarrow> nat \<Rightarrow> bool" where
  "net_up s n = True"

definition peer :: address where
  "peer = (''127.0.0.1'', 50000)"

definition chat_ana :: state where
  "chat_ana = snd (snd (handshake net_up 1 peer (Data (ascii ''Ana'')) init))"

definition chat_ana_leo :: state where
  "chat_ana_leo = snd (snd (handshake net_up 2 peer (Data (ascii ''Leo'')) chat_ana))"


definition frame_ana :: frame where
  "frame_ana = fst (snd (handshake net_up 1 peer (Data (ascii ''Ana'')) init))"

text \<open>The bytes of the welcome prompt.\<close>

definition WELCOME_BYTES :: bytes where
  "WELCOME_BYTES = ascii '' Bienvenido al chat. Escrib'' @ [0xC3, 0xAD] @ ascii '' tu nombre: ''"

section \<open>Basic facts\<close>

subsection \<open>Primitive operations, field by field\<close>

lemma put_fields [simp]:
  "clients (put q x st) = clients st"
  "next_qid (put q x st) = next_qid st"
  "shutting_down (put q x st) = shutting_down st"
  "closed (put q x st) = closed st"
  "sent (put q x st) = sent st"
  "listening (put q x st) = listening st"
  "threads (put q x st) = threads st"
  "trace (put q x st) = trace st @ [Ev_put q x]"
  "queues (put q x st) q' = (if q' = q then queues st q @ [x] else queues st q')"
  by (simp_all add: put_def)

lemma safe_close_eq:
  "safe_close s st =
     (if s \<in> closed st then st
      else st\<lparr>closed := insert s (closed st), trace := trace st @ [Ev_close s]\<rparr>)"
  by (simp add: safe_close_def sock_shutdown_def sock_close_def)

lemma safe_close_fields [simp]:
  "clients (safe_close s st) = clients st"
  "queues (safe_close s st) = queues st"
  "next_qid (safe_close s st) = next_qid st"
  "shutting_down (safe_close s st) = shutting_down st"
  "closed (safe_close s st) = insert s (closed st)"
  "sent (safe_close s st) = sent st"
  "listening (safe_close s st) = listening st"
  "threads (safe_close s st) = threads st"
  by (auto simp: safe_close_eq)

lemma enqueue_all_Nil [simp]: "enqueue_all [] x st = st"
  by (simp add: enqueue_all_def)

lemma enqueue_all_Cons [simp]: "enqueue_all (q # qs) x st = enqueue_all qs x (put q x st)"
  by (simp add: enqueue_all_def)

lemma enqueue_all_fields [simp]:
  "clients (enqueue_all qs x st) = clients st"
  "next_qid (enqueue_all qs x st) = next_qid st"
  "shutting_down (enqueue_all qs x st) = shutting_down st"
  "closed (enqueue_all qs x st) = closed st"
  "sent (enqueue_all qs x st) = sent st"
  "listening (enqueue_all qs x st) = listening st"
  "threads (enqueue_all qs x st) = threads st"
  "trace (enqueue_all qs x st) = trace st @ map (\<lambda>q. Ev_put q x) qs"
  by (induction qs arbitrary: st) simp_all

lemma queues_enqueue_all:
  "queues (enqueue_all qs x st) q = queues st q @ replicate (count_list qs q) x"
  by (induction qs arbitrary: st) (auto simp: replicate_app_Cons_same)

lemma broadcast_fields [simp]:
  "clients (broadcast m ex st) = clients st"
  "next_qid (broadcast m ex st) = next_qid st"
  "shutting_down (broadcast m ex st) = shutting_down st"
  "closed (broadcast m ex st) = closed st"
  "sent (broadcast m ex st) = sent st"
  "listening (broadcast m ex st) = listening st"
  "threads (broadcast m ex st) = threads st"
  by (simp_all add: broadcast_def)

lemma register_fields [simp]:
  "clients (register s c st) = AList.update s c (clients st)"
  "queues (register s c st) = queues st"
  "next_qid (register s c st) = next_qid st"
  "shutting_down (register s c st) = shutting_down st"
  "closed (register s c st) = closed st"
  "sent (register s c st) = sent st"
  "listening (register s c st) = listening st"
  "threads (register s c st) = threads st"
  "trace (register s c st) = trace st @ [Ev_register s]"
  by (simp_all add: register_def)

lemma sendall_fields:
  assumes "sendall net s b st = Inr st'"
  shows "clients st' = clients st" "queues st' = queues st" "next_qid st' = next_qid st"
    "shutting_down st' = shutting_down st" "closed st' = closed st"
    "listening st' = listening st" "threads st' = threads st"
    "sent st' = (sent st)(s := sent st s @ [b])" "trace st' = trace st @ [Ev_send s b]"
    "s \<notin> closed st" "net s (length (sent st s))"
  using assms by (auto simp: sendall_def split: if_splits)

lemma deregister_present:
  assumes "map_of (clients st) s = Some c"
  shows "deregister s nm st =
           Inr (name c, st\<lparr>clients := AList.delete s (clients st), trace := trace st @ [Ev_pop s]\<rparr>)"
proof -
  from assms have "s \<in> set (map fst (clients st))"
    by (metis map_of_eq_None_iff option.distinct(1) set_map)
  with assms show ?thesis by (simp add: deregister_def dict_pop_def)
qed

lemma deregister_absent:
  assumes "s \<notin> set (map fst (clients st))"
  shows "deregister s nm st =
           Inr (case nm of None \<Rightarrow> DESCONOCIDO | Some n \<Rightarrow> if n = [] then DESCONOCIDO else n, st)"
  using assms by (simp add: deregister_def)

lemma deregister_cases:
  obtains c where "map_of (clients st) s = Some c"
  | "s \<notin> set (map fst (clients st))"
  by (cases "map_of (clients st) s") (auto simp: map_of_eq_None_iff)


subsection \<open>The codec\<close>

lemma encode_point_None: "encode_point cp = None \<longleftrightarrow> \<not> scalar cp"
  by (auto simp: encode_point_def scalar_def)

lemma encode_None: "encode s = None \<longleftrightarrow> \<not> list_all scalar s"
proof (induction s)
  case Nil
  show ?case by simp
next
  case (Cons cp s)
  show ?case
  proof (cases "encode_point cp")
    case None
    then show ?thesis by (simp add: encode_point_None [symmetric])
  next
    case (Some x)
    then have "scalar cp" using encode_point_None [of cp] by simp
    with Some Cons show ?thesis by (cases "encode s") simp_all
  qed
qed

lemma encode_append:
  "encode (a @ b) =
     (case encode a of None \<Rightarrow> None
      | Some x \<Rightarrow> (case encode b of None \<Rightarrow> None | Some y \<Rightarrow> Some (x @ y)))"
  by (induction a) (auto split: option.splits)

lemma scalar_REPLACEMENT: "scalar REPLACEMENT"
  by (simp add: scalar_def REPLACEMENT_def)

lemma scalar2_aux:
  fixes a b :: nat
  assumes "a < 32" "b < 64"
  shows "scalar (a * 64 + b)"
  unfolding scalar_def using assms by linarith

lemma scalar3_aux:
  fixes a b c :: nat
  assumes "a < 16" "b < 64" "c < 64" "a = 13 \<longrightarrow> b < 32"
  shows "scalar (a * 4096 + b * 64 + c)"
proof -
  consider "a \<le> 12" | "a = 13" | "14 \<le> a" by linarith
  then show ?thesis
    unfolding scalar_def using assms by cases linarith+
qed

lemma scalar4_aux:
  fixes a b c d :: nat
  assumes "a < 5" "b < 64" "c < 64" "d < 64" "a = 4 \<longrightarrow> b < 16" "a = 0 \<longrightarrow> 16 \<le> b"
  shows "scalar (a * 262144 + b * 4096 + c * 64 + d)"
proof -
  consider "a = 0" | "1 \<le> a \<and> a \<le> 3" | "a = 4" using assms(1) by linarith
  then show ?thesis
    unfolding scalar_def using assms by cases linarith+
qed

lemma scalar2:
  assumes "ch < 0xE0" "0x80 \<le> c2" "c2 < 0xC0"
  shows "scalar ((ch - 0xC0) * 64 + (c2 - 0x80))"
proof -
  have "ch - 0xC0 < 32" "c2 - 0x80 < 64" using assms by linarith+
  then show ?thesis by (rule scalar2_aux)
qed

lemma scalar3:
  assumes "0xE0 \<le> ch" "ch < 0xF0" "0x80 \<le> c2" "c2 < 0xC0" "0x80 \<le> c3" "c3 < 0xC0"
    and "ch = 0xED \<longrightarrow> c2 < 0xA0"
  shows "scalar ((ch - 0xE0) * 4096 + (c2 - 0x80) * 64 + (c3 - 0x80))"
proof -
  have "ch - 0xE0 < 16" "c2 - 0x80 < 64" "c3 - 0x80 < 64" "ch - 0xE0 = 13 \<longrightarrow> c2 - 0x80 < 32"
    using assms by linarith+
  then show ?thesis by (rule scalar3_aux)
qed

lemma scalar4:
  assumes "0xF0 \<le> ch" "ch < 0xF5" "0x80 \<le> c2" "c2 < 0xC0" "0x80 \<le> c3" "c3 < 0xC0"
    and "0x80 \<le> c4" "c4 < 0xC0" "ch = 0xF4 \<longrightarrow> c2 < 0x90" "ch = 0xF0 \<longrightarrow> 0x90 \<le> c2"
  shows "scalar ((ch - 0xF0) * 262144 + (c2 - 0x80) * 4096 + (c3 - 0x80) * 64 + (c4 - 0x80))"
proof -
  have "ch - 0xF0 < 5" "c2 - 0x80 < 64" "c3 - 0x80 < 64" "c4 - 0x80 < 64"
    "ch - 0xF0 = 4 \<longrightarrow> c2 - 0x80 < 16" "ch - 0xF0 = 0 \<longrightarrow> 16 \<le> c2 - 0x80"
    using assms by linarith+
  then show ?thesis by (rule scalar4_aux)
qed

lemma scalar_decode2: "ch < 0xE0 \<Longrightarrow> scalar (fst (decode2 ch bs))"
proof -
  assume ch: "ch < 0xE0"
  have n: "scalar ((ch - 192) * 64 + c2 - 128)" if "128 \<le> c2" "c2 < 192" for c2
    using scalar2 [of ch c2] ch that by simp
  show ?thesis
    unfolding decode2_def is_continuation_def
    by (auto simp: scalar_REPLACEMENT n split: list.splits)
qed

lemma scalar_decode3: "0xE0 \<le> ch \<Longrightarrow> ch < 0xF0 \<Longrightarrow> scalar (fst (decode3 ch bs))"
proof -
  assume ch: "0xE0 \<le> ch" "ch < 0xF0"
  have n: "scalar ((ch - 224) * 4096 + (c2 - 128) * 64 + c3 - 128)"
    if "128 \<le> c2" "c2 < 192" "128 \<le> c3" "c3 < 192" "ch = 237 \<longrightarrow> c2 < 160" for c2 c3
    using scalar3 [of ch c2 c3] ch that by simp
  show ?thesis
    unfolding decode3_def is_continuation_def
    by (auto simp: scalar_REPLACEMENT n split: list.splits)
qed

lemma scalar_decode4: "0xF0 \<le> ch \<Longrightarrow> ch < 0xF5 \<Longrightarrow> scalar (fst (decode4 ch bs))"
proof -
  assume ch: "0xF0 \<le> ch" "ch < 0xF5"
  have n: "scalar ((ch - 240) * 262144 + (c2 - 128) * 4096 + (c3 - 128) * 64 + c4 - 128)"
    if "128 \<le> c2" "c2 < 192" "128 \<le> c3" "c3 < 192" "128 \<le> c4" "c4 < 192"
      "ch = 244 \<longrightarrow> c2 < 144" "ch = 240 \<longrightarrow> 144 \<le> c2" for c2 c3 c4
    using scalar4 [of ch c2 c3 c4] ch that by simp
  show ?thesis
    unfolding decode4_def is_continuation_def
    by (auto simp: scalar_REPLACEMENT n split: list.splits)
qed

lemma scalar_decode_step: "scalar (fst (decode_step ch bs))"
  by (auto simp: decode_step_def scalar_REPLACEMENT scalar_decode2 scalar_decode3 scalar_decode4)
     (simp add: scalar_def)

lemma valid_decode: "list_all scalar (decode bs)"
proof (induction bs rule: decode.induct)
  case 1
  show ?case by simp
next
  case (2 ch bs)
  obtain cp k where s: "decode_step ch bs = (cp, k)" by (cases "decode_step ch bs")
  with scalar_decode_step [of ch bs] have "scalar cp" by simp
  with 2 s show ?case by simp
qed

lemma valid_strip: "list_all scalar s \<Longrightarrow> list_all scalar (strip s)"
  unfolding strip_def list_all_iff by (auto dest!: set_dropWhileD)


lemma encode_total: "list_all scalar s \<Longrightarrow> \<exists>b. encode s = Some b"
  using encode_None [of s] by (cases "encode s") simp_all

lemma scalar_of_char: "scalar (of_char c)"
proof -
  have "(of_char c :: nat) mod 256 = of_char c" by (rule of_char_mod_256)
  then have "(of_char c :: nat) < 256" by (metis mod_less_divisor zero_less_numeral)
  then show ?thesis unfolding scalar_def by linarith
qed

lemma valid_ascii: "list_all scalar (ascii s)"
  by (simp add: ascii_def list_all_iff scalar_of_char)

lemma valid_join_notice: "list_all scalar nm \<Longrightarrow> list_all scalar (join_notice nm)"
  by (simp add: join_notice_def valid_ascii NEWLINE_def) (simp add: scalar_def)

lemma valid_leave_notice: "list_all scalar nm \<Longrightarrow> list_all scalar (leave_notice nm)"
  by (simp add: leave_notice_def valid_ascii NEWLINE_def) (simp add: scalar_def)

lemma valid_terminate_line: "list_all scalar s \<Longrightarrow> list_all scalar (terminate_line s)"
  by (simp add: terminate_line_def NEWLINE_def scalar_def)

lemma valid_chat_line:
  "list_all scalar nm \<Longrightarrow> list_all scalar text \<Longrightarrow> list_all scalar (chat_line nm text)"
  by (simp add: chat_line_def valid_ascii)

lemma valid_name: "list_all scalar (let n = strip (decode data) in if n = [] then ANON else n)"
  by (simp add: Let_def ANON_def valid_ascii valid_strip valid_decode)

lemmas text_defs = ascii_def encode_point_def decode_step_def decode2_def
  decode3_def decode4_def is_continuation_def REPLACEMENT_def NEWLINE_def strip_def is_space_def
  WELCOME_def ANON_def join_notice_def leave_notice_def chat_line_def DESCONOCIDO_def
  terminate_line_def endswith_newline_def

lemma encode_WELCOME:
  "encode WELCOME = Some (ascii '' Bienvenido al chat. Escrib'' @ [0xC3, 0xAD] @ ascii '' tu nombre: '')"
  by (simp add: text_defs)

lemma encode_leave_DESCONOCIDO:
  "encode (leave_notice DESCONOCIDO) =
     Some (ascii '' Desconocido abandon'' @ [0xC3, 0xB3] @ ascii '' el chat.'' @ [0x0A])"
  by (simp add: text_defs)

subsection \<open>The snapshot of a broadcast\<close>

lemma snapshot_eq:
  assumes d: "distinct (map fst (clients st))"
  shows "snapshot ex st = map (queue \<circ> snd) (filter (\<lambda>p. Some (fst p) \<noteq> ex) (clients st))"
proof -
  have "\<And>p. p \<in> set (clients st) \<Longrightarrow> map_of (clients st) (fst p) = Some (snd p)"
    using d by simp
  then have "concat (map (\<lambda>s. case map_of (clients st) s of None \<Rightarrow> [] | Some c \<Rightarrow> [queue c])
                 (filter (\<lambda>s. Some s \<noteq> ex) (map fst xs)))
        = map (queue \<circ> snd) (filter (\<lambda>p. Some (fst p) \<noteq> ex) xs)"
    if "set xs \<subseteq> set (clients st)" for xs
    using that by (induction xs) auto
  then show ?thesis by (simp add: snapshot_def)
qed

lemma snapshot_subset: "set (snapshot ex st) \<subseteq> set (map (queue \<circ> snd) (clients st))"
proof -
  have "q \<in> set (map (queue \<circ> snd) (clients st))"
    if "map_of (clients st) s = Some c" "q = queue c" for s c q
    using that by (force dest: map_of_SomeD)
  then show ?thesis
    by (auto simp: snapshot_def split: option.splits)
qed

lemma count_list_distinct: "distinct xs \<Longrightarrow> count_list xs x = (if x \<in> set xs then 1 else 0)"
  by (induction xs) auto

lemma count_snapshot:
  assumes "registry_ok st" and "(s, c) \<in> set (clients st)"
  shows "count_list (snapshot ex st) (queue c) = (if ex = Some s then 0 else 1)"
proof -
  let ?cs = "clients st"
  let ?P = "\<lambda>p. Some (fst p) \<noteq> ex"
  from assms(1) have dk: "distinct (map fst ?cs)" and dq: "distinct (map (queue \<circ> snd) ?cs)"
    by (simp_all add: registry_ok_def)
  have inj: "inj_on (queue \<circ> snd) (set ?cs)"
    using dq by (simp add: distinct_map)
  have "distinct (map (queue \<circ> snd) (filter ?P ?cs))"
    using dq by (simp add: distinct_map_filter)
  then have "count_list (snapshot ex st) (queue c)
      = (if queue c \<in> set (map (queue \<circ> snd) (filter ?P ?cs)) then 1 else 0)"
    by (simp add: snapshot_eq [OF dk] count_list_distinct)
  moreover have "queue c \<in> set (map (queue \<circ> snd) (filter ?P ?cs)) \<longleftrightarrow> Some s \<noteq> ex"
  proof
    assume "queue c \<in> set (map (queue \<circ> snd) (filter ?P ?cs))"
    then obtain p where p: "p \<in> set ?cs" "?P p" "(queue \<circ> snd) p = (queue \<circ> snd) (s, c)"
      by auto
    from inj_onD [OF inj p(3) p(1) assms(2)] have "p = (s, c)" .
    with p show "Some s \<noteq> ex" by simp
  next
    assume "Some s \<noteq> ex"
    with assms(2) show "queue c \<in> set (map (queue \<circ> snd) (filter ?P ?cs))"
      by force
  qed
  ultimately show ?thesis by auto
qed

lemma queues_broadcast_registered:
  assumes "registry_ok st" and "(s, c) \<in> set (clients st)"
  shows "queues (broadcast m ex st) (queue c) =
           (if ex = Some s then queues st (queue c) else queues st (queue c) @ [Some m])"
  using count_snapshot [OF assms, of ex] by (simp add: broadcast_def queues_enqueue_all)

lemma queues_broadcast_other:
  assumes "q \<notin> set (map (queue \<circ> snd) (clients st))"
  shows "queues (broadcast m ex st) q = queues st q"
proof -
  from assms snapshot_subset [of ex st] have "q \<notin> set (snapshot ex st)" by blast
  then have "count_list (snapshot ex st) q = 0" by (simp add: count_list_0_iff)
  then show ?thesis by (simp add: broadcast_def queues_enqueue_all)
qed

lemma trace_broadcast:
  "trace (broadcast m ex st) = trace st @ map (\<lambda>q. Ev_put q (Some m)) (snapshot ex st)"
  by (simp add: broadcast_def)

subsection \<open>The example state\<close>

lemmas op_defs = handshake_def handshake_register_def new_queue_def sendall_def recv_def register_def broadcast_def
  snapshot_def enqueue_all_def put_def safe_close_def sock_shutdown_def sock_close_def
  init_def net_up_def Let_def

lemma strip_decode_Ana: "strip (decode (ascii ''Ana'')) = ascii ''Ana''"
  by (simp add: text_defs)

lemma strip_decode_Leo: "strip (decode (ascii ''Leo'')) = ascii ''Leo''"
  by (simp add: text_defs)

lemma encode_join_Ana:
  "encode (join_notice (ascii ''Ana'')) =
     Some (ascii '' Ana se uni'' @ [0xC3, 0xB3] @ ascii '' al chat.'' @ [0x0A])"
  by (simp add: text_defs)

lemma encode_join_Leo:
  "encode (join_notice (ascii ''Leo'')) =
     Some (ascii '' Leo se uni'' @ [0xC3, 0xB3] @ ascii '' al chat.'' @ [0x0A])"
  by (simp add: text_defs)

lemma ascii_not_Nil: "ascii (c # s) \<noteq> []"
  by (simp add: ascii_def)


lemma handshake_Ana:
  "handshake net_up 1 peer (Data (ascii ''Ana'')) init =
     (Proceed (ascii ''Ana''),
      \<lparr>fr_name = Some (ascii ''Ana''), send_queue = 0, send_thread = True\<rparr>,
      \<lparr>clients = [(1, \<lparr>name = ascii ''Ana'', queue = 0, addr = peer\<rparr>)],
       queues = (\<lambda>_. []), next_qid = 1, shutting_down = False, closed = {},
       sent = (\<lambda>_. [])(1 := [WELCOME_BYTES]),
       listening = True, threads = [],
       trace = [Ev_send 1 WELCOME_BYTES, Ev_register 1]\<rparr>)"
  by (simp add: op_defs encode_WELCOME strip_decode_Ana encode_join_Ana ascii_not_Nil
        WELCOME_BYTES_def fun_eq_iff)

lemma chat_ana_eq:
  "chat_ana =
      \<lparr>clients = [(1, \<lparr>name = ascii ''Ana'', queue = 0, addr = peer\<rparr>)],
       queues = (\<lambda>_. []), next_qid = 1, shutting_down = False, closed = {},
       sent = (\<lambda>_. [])(1 := [WELCOME_BYTES]),
       listening = True, threads = [],
       trace = [Ev_send 1 WELCOME_BYTES, Ev_register 1]\<rparr>"
  unfolding chat_ana_def handshake_Ana by simp

lemma chat_ana_leo_eq:
  "chat_ana_leo =
      \<lparr>clients = [(1, \<lparr>name = ascii ''Ana'', queue = 0, addr = peer\<rparr>),
                  (2, \<lparr>name = ascii ''Leo'', queue = 1, addr = peer\<rparr>)],
       queues = (\<lambda>_. [])(0 := [Some (ascii '' Leo se uni'' @ [0xC3, 0xB3] @ ascii '' al chat.'' @ [0x0A])]),
       next_qid = 2, shutting_down = False, closed = {},
       sent = (\<lambda>_. [])(1 := [WELCOME_BYTES], 2 := [WELCOME_BYTES]),
       listening = True, threads = [],
       trace = [Ev_send 1 WELCOME_BYTES, Ev_register 1, Ev_send 2 WELCOME_BYTES, Ev_register 2,
                Ev_put 0 (Some (ascii '' Leo se uni'' @ [0xC3, 0xB3] @ ascii '' al chat.'' @ [0x0A]))]\<rparr>"
  unfolding chat_ana_leo_def chat_ana_eq
  by (simp add: op_defs encode_WELCOME strip_decode_Leo encode_join_Leo ascii_not_Nil
        WELCOME_BYTES_def fun_eq_iff)

lemma registry_ok_chat_ana_leo: "registry_ok chat_ana_leo"
  by (simp add: chat_ana_leo_eq registry_ok_def)

subsection \<open>The sender thread\<close>

lemma payloads_simps [simp]:
  "payloads [] = []"
  "payloads (None # xs) = payloads xs"
  "payloads (Some b # xs) = b # payloads xs"
  by (simp_all add: payloads_def)

lemma payloads_append [simp]: "payloads (xs @ ys) = payloads xs @ payloads ys"
  by (simp add: payloads_def)

lemma sender_frame:
  assumes "sender_thread_func net sock q st = (ex, st')"
  shows "clients st' = clients st \<and> next_qid st' = next_qid st
    \<and> shutting_down st' = shutting_down st \<and> closed st' = closed st
    \<and> listening st' = listening st \<and> threads st' = threads st
    \<and> (\<forall>q'. q' \<noteq> q \<longrightarrow> queues st' q' = queues st q')
    \<and> (\<forall>s. s \<noteq> sock \<longrightarrow> sent st' s = sent st s)"
  using assms
proof (induction net sock q st arbitrary: ex st' rule: sender_thread_func.induct)
  case (1 net sock q st)
  show ?case
  proof (cases "queues st q")
    case Nil
    with "1.prems" show ?thesis by (simp add: sender_thread_func.simps [of net sock q st])
  next
    case (Cons x rest)
    let ?st1 = "st\<lparr>queues := (queues st)(q := rest)\<rparr>"
    show ?thesis
    proof (cases x)
      case None
      with Cons "1.prems" show ?thesis
        by (auto simp: sender_thread_func.simps [of net sock q st])
    next
      case (Some b)
      show ?thesis
      proof (cases "sendall net sock b ?st1")
        case (Inl e)
        with Some Cons "1.prems" show ?thesis
          by (auto simp: sender_thread_func.simps [of net sock q st])
      next
        case (Inr st2)
        with Some Cons "1.prems" have run: "sender_thread_func net sock q st2 = (ex, st')"
          by (simp add: sender_thread_func.simps [of net sock q st])
        note ih = "1.IH" [OF Cons refl Some Inr run]
        from sendall_fields [OF Inr] ih show ?thesis by auto
      qed
    qed
  qed
qed

lemma sender_run:
  assumes "sender_thread_func net sock q st = (ex, st')"
  shows "\<exists>pre. None \<notin> set pre
      \<and> sent st' sock = sent st sock @ payloads pre
      \<and> (\<forall>i<length pre. sock \<notin> closed st \<and> net sock (length (sent st sock) + i))
      \<and> (case ex of
            Blocked \<Rightarrow> queues st q = pre \<and> queues st' q = []
          | Left \<Rightarrow> (\<exists>x. queues st q = pre @ x # queues st' q
                \<and> (x = None \<or> sock \<in> closed st
                     \<or> \<not> net sock (length (sent st sock) + length pre))))"
  using assms
proof (induction net sock q st arbitrary: ex st' rule: sender_thread_func.induct)
  case (1 net sock q st)
  show ?case
  proof (cases "queues st q")
    case Nil
    with "1.prems" have "ex = Blocked" "st' = st"
      by (simp_all add: sender_thread_func.simps [of net sock q st])
    with Nil show ?thesis by (intro exI [of _ "[]"]) simp
  next
    case (Cons x rest)
    let ?st1 = "st\<lparr>queues := (queues st)(q := rest)\<rparr>"
    show ?thesis
    proof (cases x)
      case None
      with Cons "1.prems" have "ex = Left" "st' = ?st1"
        by (simp_all add: sender_thread_func.simps [of net sock q st])
      with Cons None show ?thesis by (intro exI [of _ "[]"]) simp
    next
      case (Some b)
      show ?thesis
      proof (cases "sendall net sock b ?st1")
        case (Inl e)
        with Some Cons "1.prems" have "ex = Left" "st' = ?st1"
          by (simp_all add: sender_thread_func.simps [of net sock q st])
        moreover from Inl have "sock \<in> closed st \<or> \<not> net sock (length (sent st sock))"
          by (auto simp: sendall_def split: if_splits)
        ultimately show ?thesis using Cons Some by (intro exI [of _ "[]"]) auto
      next
        case (Inr st2)
        with Some Cons "1.prems" have run: "sender_thread_func net sock q st2 = (ex, st')"
          by (simp add: sender_thread_func.simps [of net sock q st])
        from "1.IH" [OF Cons refl Some Inr run] obtain pre where pre:
          "None \<notin> set pre" "sent st' sock = sent st2 sock @ payloads pre"
          "\<forall>i<length pre. sock \<notin> closed st2 \<and> net sock (length (sent st2 sock) + i)"
          "case ex of
             Blocked \<Rightarrow> queues st2 q = pre \<and> queues st' q = []
           | Left \<Rightarrow> (\<exists>x. queues st2 q = pre @ x # queues st' q
                 \<and> (x = None \<or> sock \<in> closed st2
                      \<or> \<not> net sock (length (sent st2 sock) + length pre)))"
          by blast
        note f = sendall_fields [OF Inr]
        have s2: "sent st2 sock = sent st sock @ [b]" "closed st2 = closed st"
          "queues st2 q = rest" "sock \<notin> closed st" "net sock (length (sent st sock))"
          using f by simp_all
        have idx: "sock \<notin> closed st \<and> net sock (length (sent st sock) + i)"
          if "i < length (Some b # pre)" for i
        proof (cases i)
          case 0
          with s2 show ?thesis by simp
        next
          case (Suc j)
          with that pre(3) s2 show ?thesis by auto
        qed
        show ?thesis
        proof (intro exI [of _ "Some b # pre"] conjI)
          show "None \<notin> set (Some b # pre)" using pre(1) by simp
          show "sent st' sock = sent st sock @ payloads (Some b # pre)"
            using pre(2) s2 by simp
          show "\<forall>i<length (Some b # pre).
                  sock \<notin> closed st \<and> net sock (length (sent st sock) + i)"
            using idx by blast
          show "case ex of
                  Blocked \<Rightarrow> queues st q = Some b # pre \<and> queues st' q = []
                | Left \<Rightarrow> (\<exists>x. queues st q = (Some b # pre) @ x # queues st' q
                      \<and> (x = None \<or> sock \<in> closed st
                           \<or> \<not> net sock (length (sent st sock) + length (Some b # pre))))"
            using pre(4) s2 Cons Some by (cases ex) auto
        qed
      qed
    qed
  qed
qed


lemma length_payloads: "None \<notin> set xs \<Longrightarrow> length (payloads xs) = length xs"
proof (induction xs)
  case Nil
  show ?case by simp
next
  case (Cons x xs)
  then show ?case by (cases x) simp_all
qed

lemma sender_after_prefix:
  assumes "None \<notin> set pre"
    and "\<forall>i<length pre. sock \<notin> closed st \<and> net sock (length (sent st sock) + i)"
    and "queues st q = pre @ rest"
  shows "\<exists>st1. queues st1 q = rest \<and> sent st1 sock = sent st sock @ payloads pre
           \<and> closed st1 = closed st
           \<and> sender_thread_func net sock q st = sender_thread_func net sock q st1"
  using assms
proof (induction pre arbitrary: st)
  case Nil
  then show ?case by (intro exI [of _ st]) simp
next
  case (Cons x pre)
  from Cons.prems(1) obtain b where x: "x = Some b" by (cases x) auto
  let ?st1 = "st\<lparr>queues := (queues st)(q := pre @ rest)\<rparr>"
  from Cons.prems(2) have ok0: "sock \<notin> closed st" "net sock (length (sent st sock))"
    by auto
  then obtain st2 where st2: "sendall net sock b ?st1 = Inr st2"
    by (simp add: sendall_def)
  note f = sendall_fields [OF st2]
  have step: "sender_thread_func net sock q st = sender_thread_func net sock q st2"
    using Cons.prems(3) x st2 by (simp add: sender_thread_func.simps [of net sock q st])
  have "None \<notin> set pre" using Cons.prems(1) by simp
  moreover have "\<forall>i<length pre. sock \<notin> closed st2 \<and> net sock (length (sent st2 sock) + i)"
  proof (intro allI impI)
    fix i assume "i < length pre"
    then have "Suc i < length (x # pre)" by simp
    with Cons.prems(2) have "sock \<notin> closed st \<and> net sock (length (sent st sock) + Suc i)"
      by blast
    with f show "sock \<notin> closed st2 \<and> net sock (length (sent st2 sock) + i)" by simp
  qed
  moreover have "queues st2 q = pre @ rest" using f by simp
  ultimately obtain st3 where st3: "queues st3 q = rest"
    "sent st3 sock = sent st2 sock @ payloads pre" "closed st3 = closed st2"
    "sender_thread_func net sock q st2 = sender_thread_func net sock q st3"
    using Cons.IH [of st2] by blast
  show ?case
    using st3 step f x by (intro exI [of _ st3]) simp
qed

lemma sender_blocks:
  assumes "None \<notin> set pre"
    and "\<forall>i<length pre. sock \<notin> closed st \<and> net sock (length (sent st sock) + i)"
    and "queues st q = pre"
  shows "\<exists>st'. sender_thread_func net sock q st = (Blocked, st') \<and> queues st' q = []
           \<and> sent st' sock = sent st sock @ payloads pre"
proof -
  from sender_after_prefix [where pre = pre and sock = sock and st = st and net = net
      and q = q and rest = "[]"] assms obtain st1 where st1:
    "queues st1 q = []" "sent st1 sock = sent st sock @ payloads pre"
    "sender_thread_func net sock q st = sender_thread_func net sock q st1"
    by auto
  then show ?thesis by (simp add: sender_thread_func.simps [of net sock q st1])
qed

lemma sender_sentinel:
  assumes "None \<notin> set pre"
    and "\<forall>i<length pre. sock \<notin> closed st \<and> net sock (length (sent st sock) + i)"
    and "queues st q = pre @ None # rest"
  shows "\<exists>st'. sender_thread_func net sock q st = (Left, st') \<and> queues st' q = rest
           \<and> sent st' sock = sent st sock @ payloads pre"
proof -
  from sender_after_prefix [where pre = pre and sock = sock and st = st and net = net
      and q = q and rest = "None # rest"] assms obtain st1 where st1:
    "queues st1 q = None # rest" "sent st1 sock = sent st sock @ payloads pre"
    "sender_thread_func net sock q st = sender_thread_func net sock q st1"
    by auto
  then show ?thesis by (simp add: sender_thread_func.simps [of net sock q st1])
qed

lemma sender_write_failure:
  assumes "None \<notin> set pre"
    and "\<forall>i<length pre. sock \<notin> closed st \<and> net sock (length (sent st sock) + i)"
    and "queues st q = pre @ Some b # rest"
    and "sock \<in> closed st \<or> \<not> net sock (length (sent st sock) + length pre)"
  shows "\<exists>st'. sender_thread_func net sock q st = (Left, st') \<and> queues st' q = rest
           \<and> sent st' sock = sent st sock @ payloads pre"
proof -
  from sender_after_prefix [where pre = pre and sock = sock and st = st and net = net
      and q = q and rest = "Some b # rest"] assms(1-3) obtain st1 where st1:
    "queues st1 q = Some b # rest" "sent st1 sock = sent st sock @ payloads pre"
    "closed st1 = closed st"
    "sender_thread_func net sock q st = sender_thread_func net sock q st1"
    by auto
  let ?st2 = "st1\<lparr>queues := (queues st1)(q := rest)\<rparr>"
  have "sendall net sock b ?st2 = Inl OSError"
    using assms(4) st1 length_payloads [OF assms(1)] by (auto simp: sendall_def)
  with st1 show ?thesis by (simp add: sender_thread_func.simps [of net sock q st1])
qed

subsection \<open>How the state evolves\<close>

lemma evolves_refl: "evolves st st"
  by (simp add: evolves_def)

lemma evolves_trans [trans]:
  assumes "evolves st1 st2" and "evolves st2 st3"
  shows "evolves st1 st3"
  using assms by (simp add: evolves_def)

lemma evolvesI_same:
  assumes "shutting_down st \<longrightarrow> shutting_down st'"
    and "clients st' = clients st" and "next_qid st' = next_qid st"
  shows "evolves st st'"
  using assms by (auto simp: evolves_def registry_ok_def detached_def)

lemma evolves_safe_close: "evolves st (safe_close s st)"
  by (rule evolvesI_same) simp_all

lemma evolves_put: "evolves st (put q x st)"
  by (rule evolvesI_same) simp_all

lemma evolves_get_item: "evolves st (get_item q st)"
  by (rule evolvesI_same) (simp_all add: get_item_def split: list.split)

lemma evolves_sendall: "evolves st (case sendall net s b st of Inl e \<Rightarrow> st | Inr st' \<Rightarrow> st')"
proof (cases "sendall net s b st")
  case (Inl e)
  then show ?thesis by (simp add: evolves_refl)
next
  case (Inr st')
  from sendall_fields [OF Inr] have "evolves st st'" by (intro evolvesI_same) simp_all
  with Inr show ?thesis by simp
qed

lemma evolves_join_thread: "evolves st (join_thread t st)"
  by (rule evolvesI_same) (simp_all add: join_thread_def)

lemma evolves_broadcast: "evolves st (broadcast m ex st)"
  by (rule evolvesI_same) simp_all

lemma evolves_join_sender: "evolves st (join_sender s st)"
  by (rule evolvesI_same) (simp_all add: join_sender_def)

lemma evolves_set_shutdown: "evolves st (set_shutdown st)"
  by (rule evolvesI_same) (simp_all add: set_shutdown_def)

lemma evolves_close_listener: "evolves st (close_listener st)"
  by (rule evolvesI_same) (simp_all add: close_listener_def)

lemma evolves_join_threads: "evolves st (join_threads st)"
  by (rule evolvesI_same) (simp_all add: join_threads_def)

lemma evolves_clear_registry: "evolves st (clear_registry st)"
  by (simp add: evolves_def clear_registry_def registry_ok_def detached_def)

lemma evolves_on_data:
  assumes "on_data s nm data st = Some st'"
  shows "evolves st st'"
proof (cases "encode (chat_line nm (terminate_line (decode data)))")
  case None
  with assms show ?thesis by (simp add: on_data_def split: if_splits)
next
  case (Some m)
  with assms have "st' = broadcast m (Some s) st"
    by (simp add: on_data_def split: if_splits)
  then show ?thesis by (simp add: evolves_broadcast)
qed

lemma evolves_recv_loop: "evolves st (snd (recv_loop s nm evs st))"
proof (induction evs arbitrary: st)
  case Nil
  show ?case by (simp add: evolves_refl)
next
  case (Cons ev evs)
  show ?case
  proof (cases "shutting_down st")
    case True
    then show ?thesis by (simp add: evolves_refl)
  next
    case False
    show ?thesis
    proof (cases "recv s ev st")
      case (Data data)
      show ?thesis
      proof (cases "on_data s nm data st")
        case None
        with Data False show ?thesis by (simp add: evolves_refl)
      next
        case (Some st')
        from evolves_trans [OF evolves_on_data [OF Some] Cons.IH [of st']] Data Some False
        show ?thesis by simp
      qed
    next
      case Timeout
      with Cons.IH [of st] False show ?thesis by simp
    next
      case Conn_error
      with False show ?thesis by (simp add: evolves_refl)
    next
      case Other_error
      with False show ?thesis by (simp add: evolves_refl)
    qed
  qed
qed

lemma sender_consumes:
  assumes "sender_thread_func net sock q st = (ex, st')"
  shows "\<exists>c. queues st q = c @ queues st' q"
  using assms
proof (induction net sock q st arbitrary: ex st' rule: sender_thread_func.induct)
  case (1 net sock q st)
  show ?case
  proof (cases "queues st q")
    case Nil
    with "1.prems" show ?thesis by (simp add: sender_thread_func.simps [of net sock q st])
  next
    case (Cons x rest)
    let ?st1 = "st\<lparr>queues := (queues st)(q := rest)\<rparr>"
    have one: "queues st q = [x] @ queues ?st1 q" using Cons by simp
    show ?thesis
    proof (cases x)
      case None
      with Cons "1.prems" have "st' = ?st1"
        by (simp add: sender_thread_func.simps [of net sock q st])
      with one show ?thesis by blast
    next
      case (Some b)
      show ?thesis
      proof (cases "sendall net sock b ?st1")
        case (Inl e)
        with Some Cons "1.prems" have "st' = ?st1"
          by (simp add: sender_thread_func.simps [of net sock q st])
        with one show ?thesis by blast
      next
        case (Inr st2)
        with Some Cons "1.prems" have run: "sender_thread_func net sock q st2 = (ex, st')"
          by (simp add: sender_thread_func.simps [of net sock q st])
        from "1.IH" [OF Cons refl Some Inr run] obtain c where c: "queues st2 q = c @ queues st' q"
          by blast
        from sendall_fields(2) [OF Inr] have "queues st2 q = rest" by simp
        with c Cons have "queues st q = (x # c) @ queues st' q" by simp
        then show ?thesis by (rule exI)
      qed
    qed
  qed
qed

lemma evolves_sender: "evolves st (snd (sender_thread_func net s q st))"
proof -
  obtain ex st' where r: "sender_thread_func net s q st = (ex, st')"
    by (cases "sender_thread_func net s q st")
  note f = sender_frame [OF r]
  from f have "shutting_down st \<longrightarrow> shutting_down st'" "clients st' = clients st"
    "next_qid st' = next_qid st"
    by blast+
  then have "evolves st st'" by (rule evolvesI_same)
  with r show ?thesis by simp
qed

lemma evolves_accept_loop: "evolves st (snd (accept_loop evs st))"
proof (induction evs arbitrary: st)
  case Nil
  show ?case by (simp add: evolves_refl)
next
  case (Cons ev evs)
  have t: "evolves st (st\<lparr>threads := threads st @ [s]\<rparr>)" for s
    by (rule evolvesI_same) simp_all
  show ?case
    using Cons.IH evolves_trans [OF t Cons.IH]
    by (cases "accept ev st") (simp_all add: evolves_refl)
qed

lemma evolves_put_sentinel: "evolves st (put_sentinel s st)"
  by (cases "map_of (clients st) s") (simp_all add: put_sentinel_def evolves_refl evolves_put)

lemma evolves_close_client: "evolves st (close_client s st)"
  using evolves_trans [OF evolves_put_sentinel evolves_safe_close]
  by (simp add: close_client_def)

lemma evolves_fold_close_client: "evolves st (fold close_client socks st)"
proof (induction socks arbitrary: st)
  case Nil
  show ?case by (simp add: evolves_refl)
next
  case (Cons s socks)
  from evolves_trans [OF evolves_close_client Cons.IH] show ?case by simp
qed

lemma evolves_main_finally: "evolves st (main_finally st)"
proof -
  let ?st1 = "fold close_client (map fst (clients st)) st"
  have "evolves st ?st1" by (rule evolves_fold_close_client)
  also have "evolves ?st1 (close_listener ?st1)" by (rule evolves_close_listener)
  also have "evolves (close_listener ?st1) (join_threads (close_listener ?st1))"
    by (rule evolves_join_threads)
  also have "evolves (join_threads (close_listener ?st1))
               (clear_registry (join_threads (close_listener ?st1)))"
    by (rule evolves_clear_registry)
  finally show ?thesis by (simp add: main_finally_def Let_def)
qed

lemma evolves_run_steps:
  assumes "\<And>f s. f \<in> set fs \<Longrightarrow> evolves s (f s)"
  shows "evolves st (run_steps fs st)"
  using assms
proof (induction fs arbitrary: st)
  case Nil
  show ?case by (simp add: run_steps_def evolves_refl)
next
  case (Cons f fs)
  have 1: "evolves st (f st)" using Cons.prems by simp
  have 2: "evolves (f st) (run_steps fs (f st))" using Cons.prems by (intro Cons.IH) simp
  from evolves_trans [OF 1 2] show ?case by (simp add: run_steps_def)
qed

lemma evolves_finally_step:
  assumes "f \<in> set (finally_steps st0)"
  shows "evolves s (f s)"
  using assms
  by (auto simp: finally_steps_def evolves_put_sentinel evolves_safe_close evolves_close_listener
      evolves_join_thread evolves_clear_registry)

lemma evolves_finally_prefix: "evolves st (run_steps (take j (finally_steps st0)) st)"
proof (rule evolves_run_steps)
  fix f s assume "f \<in> set (take j (finally_steps st0))"
  then have "f \<in> set (finally_steps st0)" by (rule in_set_takeD)
  then show "evolves s (f s)" by (rule evolves_finally_step)
qed

lemma evolves_handler:
  "evolves st (run_steps (take k (if ex = Interrupted then [set_shutdown] else [])) st)"
proof (rule evolves_run_steps)
  fix f s assume "f \<in> set (take k (if ex = Interrupted then [set_shutdown] else []))"
  then have "f \<in> set (if ex = Interrupted then [set_shutdown] else [])" by (rule in_set_takeD)
  then have "f = set_shutdown" by (simp split: if_splits)
  then show "evolves s (f s)" by (simp add: evolves_set_shutdown)
qed

lemma evolves_handler_all:
  "evolves st (run_steps (if ex = Interrupted then [set_shutdown] else []) st)"
  using evolves_handler [of st "Suc 0" ex] by (simp split: if_splits)

lemma evolves_main: "evolves st (snd (main evs again st))"
proof (cases "accept_loop evs st")
  case (Pair ex st1)
  with evolves_accept_loop [of st evs] have 1: "evolves st st1" by simp
  let ?h = "if ex = Interrupted then [set_shutdown] else []"
  let ?st2 = "run_steps ?h st1"
  have 2: "evolves st ?st2" using evolves_trans [OF 1 evolves_handler_all] .
  have 3: "evolves st (main_finally ?st2)" using evolves_trans [OF 2 evolves_main_finally] .
  have 4: "evolves st (main_finally (run_steps (take k ?h) st1))" for k
    using evolves_trans [OF evolves_trans [OF 1 evolves_handler] evolves_main_finally] .
  have 5: "evolves st (run_steps (take j (finally_steps ?st2)) ?st2)" for j
    using evolves_trans [OF 2 evolves_finally_prefix] .
  show ?thesis
  proof (cases again)
    case None
    with Pair 1 3 show ?thesis by (simp add: main_def Let_def)
  next
    case (Some k)
    with Pair 1 3 4 [of k] 5 [of "k - length ?h"] show ?thesis
      by (simp add: main_def Let_def)
  qed
qed

subsection \<open>The handshake\<close>

lemma update_queue_ids:
  "set (map (queue \<circ> snd) (AList.update k v al)) \<subseteq> insert (queue v) (set (map (queue \<circ> snd) al))"
  by (induction al) auto

lemma distinct_update_queue:
  assumes "distinct (map (queue \<circ> snd) al)" and "queue v \<notin> set (map (queue \<circ> snd) al)"
  shows "distinct (map (queue \<circ> snd) (AList.update k v al))"
  using assms
proof (induction al)
  case Nil
  show ?case by simp
next
  case (Cons p al)
  from update_queue_ids [of k v al] Cons.prems
  have "queue (snd p) \<notin> set (map (queue \<circ> snd) (AList.update k v al))" by auto
  with Cons show ?case by auto
qed

lemma list_all_update:
  "list_all P al \<Longrightarrow> P (k, v) \<Longrightarrow> list_all P (AList.update k v al)"
  by (induction al) auto

lemma registry_ok_register:
  assumes "registry_ok st" and "queue c = next_qid st" and "clients st1 = clients st"
    and "next_qid st1 = Suc (next_qid st)"
  shows "registry_ok (register s c st1)"
proof -
  from assms(1) have d: "distinct (map fst (clients st))"
    "distinct (map (queue \<circ> snd) (clients st))"
    "list_all (\<lambda>p. queue (snd p) < next_qid st) (clients st)"
    by (simp_all add: registry_ok_def)
  from d(3) have fresh: "next_qid st \<notin> set (map (queue \<circ> snd) (clients st))"
    by (auto simp: list_all_iff)
  from d(3) have lt: "list_all (\<lambda>p. queue (snd p) < Suc (next_qid st)) (clients st)"
    by (auto simp: list_all_iff)
  show ?thesis
    unfolding registry_ok_def
    using d(1,2) fresh lt assms(2-4)
    by (simp add: distinct_update distinct_update_queue list_all_update)
qed

lemma handshake_active:
  assumes "sock \<notin> closed st" and "net sock (length (sent st sock))" and "data \<noteq> []"
  shows "\<exists>m. encode (join_notice (let n = strip (decode data) in if n = [] then ANON else n)) = Some m
    \<and> handshake net sock ad (Data data) st =
       (Proceed (let n = strip (decode data) in if n = [] then ANON else n),
        \<lparr>fr_name = Some (let n = strip (decode data) in if n = [] then ANON else n),
         send_queue = next_qid st, send_thread = True\<rparr>,
        broadcast m (Some sock)
          (register sock
             \<lparr>name = (let n = strip (decode data) in if n = [] then ANON else n),
              queue = next_qid st, addr = ad\<rparr>
             (st\<lparr>queues := (queues st)(next_qid st := []), next_qid := Suc (next_qid st),
                 sent := (sent st)(sock := sent st sock @ [WELCOME_BYTES]),
                 trace := trace st @ [Ev_send sock WELCOME_BYTES]\<rparr>)))"
proof -
  let ?nm = "let n = strip (decode data) in if n = [] then ANON else n"
  from encode_total [OF valid_join_notice [OF valid_name [of data]]]
  obtain m where m: "encode (join_notice ?nm) = Some m" ..
  have "handshake net sock ad (Data data) st =
       (Proceed ?nm, \<lparr>fr_name = Some ?nm, send_queue = next_qid st, send_thread = True\<rparr>,
        broadcast m (Some sock)
          (register sock \<lparr>name = ?nm, queue = next_qid st, addr = ad\<rparr>
             (st\<lparr>queues := (queues st)(next_qid st := []), next_qid := Suc (next_qid st),
                 sent := (sent st)(sock := sent st sock @ [WELCOME_BYTES]),
                 trace := trace st @ [Ev_send sock WELCOME_BYTES]\<rparr>)))"
    using assms m
    unfolding handshake_def handshake_register_def new_queue_def encode_WELCOME WELCOME_BYTES_def [symmetric]
    by (simp add: sendall_def recv_def Let_def)
  with m show ?thesis by blast
qed

lemma handshake_leave:
  assumes "sock \<in> closed st \<or> \<not> net sock (length (sent st sock))
           \<or> first = Timeout \<or> first = Conn_error \<or> first = Other_error \<or> first = Data []"
  shows "\<exists>st'. handshake net sock ad first st =
           (Leave, \<lparr>fr_name = None, send_queue = next_qid st, send_thread = False\<rparr>, st')
      \<and> clients st' = clients st \<and> next_qid st' = Suc (next_qid st)
      \<and> queues st' = (queues st)(next_qid st := [])
      \<and> shutting_down st' = shutting_down st
      \<and> (\<exists>new. trace st' = trace st @ new \<and> set new \<subseteq> {Ev_send sock WELCOME_BYTES, Ev_close sock})"
proof (cases "sock \<in> closed st \<or> \<not> net sock (length (sent st sock))")
  case True
  then show ?thesis
    unfolding handshake_def handshake_register_def new_queue_def encode_WELCOME WELCOME_BYTES_def [symmetric]
    by (auto simp: sendall_def)
next
  case False
  with assms have f: "first = Timeout \<or> first = Conn_error \<or> first = Other_error \<or> first = Data []"
    by blast
  from False f show ?thesis
    unfolding handshake_def handshake_register_def new_queue_def encode_WELCOME WELCOME_BYTES_def [symmetric]
    by (auto simp: sendall_def recv_def safe_close_eq)
qed

lemma handshake_Leave_iff:
  "fst (handshake net sock ad first st) = Leave \<longleftrightarrow>
     sock \<in> closed st \<or> \<not> net sock (length (sent st sock))
     \<or> first = Timeout \<or> first = Conn_error \<or> first = Other_error \<or> first = Data []"
proof
  assume l: "fst (handshake net sock ad first st) = Leave"
  show "sock \<in> closed st \<or> \<not> net sock (length (sent st sock))
     \<or> first = Timeout \<or> first = Conn_error \<or> first = Other_error \<or> first = Data []"
  proof (rule ccontr)
    assume n: "\<not> ?thesis"
    then obtain data where "first = Data data" "data \<noteq> []" by (cases first) auto
    with n handshake_active [of sock st net data ad] l show False by auto
  qed
next
  assume "sock \<in> closed st \<or> \<not> net sock (length (sent st sock))
     \<or> first = Timeout \<or> first = Conn_error \<or> first = Other_error \<or> first = Data []"
  with handshake_leave [where net = net and sock = sock and st = st and first = first
      and ad = ad]
  show "fst (handshake net sock ad first st) = Leave"
    by auto
qed

lemma evolves_new_client:
  "evolves st
     (register sock \<lparr>name = nm, queue = next_qid st, addr = ad\<rparr>
        (st\<lparr>queues := (queues st)(next_qid st := []), next_qid := Suc (next_qid st),
            sent := sn, trace := tr\<rparr>))"
  (is "evolves st (register sock ?c ?st1)")
  unfolding evolves_def
proof (intro conjI allI impI)
  show "shutting_down (register sock ?c ?st1)" if "shutting_down st" using that by simp
  show "registry_ok (register sock ?c ?st1)" if "registry_ok st"
    using that by (intro registry_ok_register [of st]) simp_all
  fix q assume dq: "detached q st"
  with update_queue_ids [of sock ?c "clients st"]
  show "detached q (register sock ?c ?st1)"
    by (auto simp: detached_def)
qed

lemma handshake_register_active:
  assumes "sock \<notin> closed st" and "net sock (length (sent st sock))" and "data \<noteq> []"
  shows "handshake_register net sock ad (Data data) st =
       (Proceed (let n = strip (decode data) in if n = [] then ANON else n),
        \<lparr>fr_name = Some (let n = strip (decode data) in if n = [] then ANON else n),
         send_queue = next_qid st, send_thread = True\<rparr>,
        register sock
             \<lparr>name = (let n = strip (decode data) in if n = [] then ANON else n),
              queue = next_qid st, addr = ad\<rparr>
             (st\<lparr>queues := (queues st)(next_qid st := []), next_qid := Suc (next_qid st),
                 sent := (sent st)(sock := sent st sock @ [WELCOME_BYTES]),
                 trace := trace st @ [Ev_send sock WELCOME_BYTES]\<rparr>))"
  using assms
  unfolding handshake_register_def new_queue_def encode_WELCOME WELCOME_BYTES_def [symmetric]
  by (simp add: sendall_def recv_def Let_def)

lemma handshake_register_leave:
  assumes "sock \<in> closed st \<or> \<not> net sock (length (sent st sock))
           \<or> first = Timeout \<or> first = Conn_error \<or> first = Other_error \<or> first = Data []"
  shows "handshake_register net sock ad first st = handshake net sock ad first st"
proof -
  from assms handshake_leave [where net = net and sock = sock and st = st and first = first
      and ad = ad] obtain st' where
    h: "handshake net sock ad first st =
           (Leave, \<lparr>fr_name = None, send_queue = next_qid st, send_thread = False\<rparr>, st')"
    by blast
  obtain fl fr st1 where r: "handshake_register net sock ad first st = (fl, fr, st1)"
    by (cases "handshake_register net sock ad first st") auto
  show ?thesis
  proof (cases fl)
    case Leave
    with r show ?thesis by (simp add: handshake_def)
  next
    case (Proceed nm)
    with r h have "fr_name fr = None"
      by (cases "encode (join_notice nm)") (auto simp: handshake_def)
    moreover from r Proceed have "fr_name fr = Some nm"
      unfolding handshake_register_def new_queue_def
      by (auto simp: Let_def split: option.splits sum.splits recv_result.splits if_splits)
    ultimately show ?thesis by simp
  qed
qed

lemma evolves_handshake_leave:
  assumes "sock \<in> closed st \<or> \<not> net sock (length (sent st sock))
     \<or> first = Timeout \<or> first = Conn_error \<or> first = Other_error \<or> first = Data []"
  shows "evolves st (snd (snd (handshake net sock ad first st)))"
proof -
  from assms handshake_leave [where net = net and sock = sock and st = st and first = first
      and ad = ad]
  obtain st' where st':
    "snd (snd (handshake net sock ad first st)) = st'"
    "clients st' = clients st" "next_qid st' = Suc (next_qid st)"
    "queues st' = (queues st)(next_qid st := [])" "shutting_down st' = shutting_down st"
    by auto
  have "evolves st st'"
    unfolding evolves_def using st'(2-5)
    by (auto simp: registry_ok_def detached_def list_all_iff)
  with st'(1) show ?thesis by simp
qed

lemma evolves_handshake_register:
  "evolves st (snd (snd (handshake_register net sock ad first st)))"
proof (cases "sock \<in> closed st \<or> \<not> net sock (length (sent st sock))
     \<or> first = Timeout \<or> first = Conn_error \<or> first = Other_error \<or> first = Data []")
  case True
  from True evolves_handshake_leave [where net = net and sock = sock and st = st
      and first = first and ad = ad]
    handshake_register_leave [where net = net and sock = sock and st = st
      and first = first and ad = ad]
  show ?thesis by simp
next
  case False
  then obtain data where d: "first = Data data" "data \<noteq> []" by (cases first) auto
  from False d handshake_register_active [of sock st net data ad] evolves_new_client
  show ?thesis by simp
qed

lemma evolves_handshake: "evolves st (snd (snd (handshake net sock ad first st)))"
proof (cases "sock \<in> closed st \<or> \<not> net sock (length (sent st sock))
     \<or> first = Timeout \<or> first = Conn_error \<or> first = Other_error \<or> first = Data []")
  case True
  with evolves_handshake_leave [where net = net and sock = sock and st = st
      and first = first and ad = ad]
  show ?thesis by simp
next
  case False
  then obtain data where d: "first = Data data" "data \<noteq> []" by (cases first) auto
  let ?nm = "let n = strip (decode data) in if n = [] then ANON else n"
  let ?st1 = "st\<lparr>queues := (queues st)(next_qid st := []), next_qid := Suc (next_qid st),
                 sent := (sent st)(sock := sent st sock @ [WELCOME_BYTES]),
                 trace := trace st @ [Ev_send sock WELCOME_BYTES]\<rparr>"
  let ?c = "\<lparr>name = ?nm, queue = next_qid st, addr = ad\<rparr>"
  from False d handshake_active [of sock st net data ad] obtain m where
    h: "snd (snd (handshake net sock ad first st)) = broadcast m (Some sock) (register sock ?c ?st1)"
    by auto
  have "evolves st (register sock ?c ?st1)" by (rule evolves_new_client)
  also have "evolves (register sock ?c ?st1) (broadcast m (Some sock) (register sock ?c ?st1))"
    by (rule evolves_broadcast)
  finally show ?thesis by (simp add: h)
qed

subsection \<open>The cleanup\<close>

lemma cleanup_absent:
  assumes "sock \<notin> set (map fst (clients st))"
  shows "cleanup sock fr st =
     (let left = (case fr_name fr of None \<Rightarrow> DESCONOCIDO
                  | Some n \<Rightarrow> if n = [] then DESCONOCIDO else n);
          st2 = (case encode (leave_notice left) of
                   None \<Rightarrow> st | Some m \<Rightarrow> broadcast m (Some sock) st);
          st4 = safe_close sock (put (send_queue fr) None st2)
      in if send_thread fr then join_sender sock st4 else st4)"
  by (simp add: cleanup_def deregister_absent [OF assms] Let_def)

lemma cleanup_present:
  assumes "map_of (clients st) sock = Some c"
  shows "cleanup sock fr st =
     (let st1 = st\<lparr>clients := AList.delete sock (clients st), trace := trace st @ [Ev_pop sock]\<rparr>;
          st2 = (case encode (leave_notice (name c)) of
                   None \<Rightarrow> st1 | Some m \<Rightarrow> broadcast m (Some sock) st1);
          st4 = safe_close sock (put (send_queue fr) None st2)
      in if send_thread fr then join_sender sock st4 else st4)"
  by (simp add: cleanup_def deregister_present [OF assms] Let_def)

lemma delete_queue_ids:
  "set (map (queue \<circ> snd) (AList.delete k al)) \<subseteq> set (map (queue \<circ> snd) al)"
  by (auto simp: AList.delete_eq)

lemma registry_ok_delete:
  assumes "registry_ok st"
  shows "registry_ok (st\<lparr>clients := AList.delete s (clients st), trace := t\<rparr>)"
  using assms
  by (auto simp: registry_ok_def distinct_delete AList.delete_eq distinct_map_filter
        list_all_iff)

lemma evolves_pop:
  "evolves st (st\<lparr>clients := AList.delete s (clients st), trace := t\<rparr>)"
  unfolding evolves_def
proof (intro conjI allI impI)
  let ?st1 = "st\<lparr>clients := AList.delete s (clients st), trace := t\<rparr>"
  show "shutting_down ?st1" if "shutting_down st" using that by simp
  show "registry_ok ?st1" if "registry_ok st" using that by (rule registry_ok_delete)
  fix q assume "detached q st"
  with delete_queue_ids [of s "clients st"] show "detached q ?st1"
    by (auto simp: detached_def)
qed

lemma evolves_deregister:
  "evolves st (case deregister s nm st of Inl e \<Rightarrow> st | Inr (left, st') \<Rightarrow> st')"
proof (cases rule: deregister_cases [of st s])
  case (1 c)
  from evolves_pop show ?thesis by (simp add: deregister_present [OF 1])
next
  case 2
  then show ?thesis by (simp add: deregister_absent evolves_refl)
qed

lemma evolves_leave_broadcast:
  "evolves st (case encode (leave_notice left) of
                 None \<Rightarrow> st | Some m \<Rightarrow> broadcast m (Some sock) st)"
  by (cases "encode (leave_notice left)") (simp_all add: evolves_refl evolves_broadcast)

lemma evolves_cleanup_tail:
  "evolves st (let st4 = safe_close sock (put q None st)
               in if b then join_sender sock st4 else st4)"
proof -
  have "evolves st (put q None st)" by (rule evolves_put)
  also have "evolves (put q None st) (safe_close sock (put q None st))"
    by (rule evolves_safe_close)
  finally have 1: "evolves st (safe_close sock (put q None st))" .
  also have "evolves (safe_close sock (put q None st))
               (join_sender sock (safe_close sock (put q None st)))"
    by (rule evolves_join_sender)
  finally show ?thesis using 1 by (simp add: Let_def)
qed

lemma evolves_cleanup: "evolves st (cleanup sock fr st)"
proof (cases rule: deregister_cases [of st sock])
  case (1 c)
  let ?st1 = "st\<lparr>clients := AList.delete sock (clients st), trace := trace st @ [Ev_pop sock]\<rparr>"
  let ?st2 = "case encode (leave_notice (name c)) of
                None \<Rightarrow> ?st1 | Some m \<Rightarrow> broadcast m (Some sock) ?st1"
  have "evolves st ?st1" by (rule evolves_pop)
  also have "evolves ?st1 ?st2" by (rule evolves_leave_broadcast)
  also have "evolves ?st2 (let st4 = safe_close sock (put (send_queue fr) None ?st2)
                           in if send_thread fr then join_sender sock st4 else st4)"
    by (rule evolves_cleanup_tail)
  finally show ?thesis by (simp add: cleanup_present [OF 1] Let_def)
next
  case 2
  let ?left = "case fr_name fr of None \<Rightarrow> DESCONOCIDO
               | Some n \<Rightarrow> if n = [] then DESCONOCIDO else n"
  let ?st2 = "case encode (leave_notice ?left) of
                None \<Rightarrow> st | Some m \<Rightarrow> broadcast m (Some sock) st"
  have "evolves st ?st2" by (rule evolves_leave_broadcast)
  also have "evolves ?st2 (let st4 = safe_close sock (put (send_queue fr) None ?st2)
                           in if send_thread fr then join_sender sock st4 else st4)"
    by (rule evolves_cleanup_tail)
  finally show ?thesis by (simp add: cleanup_absent [OF 2] Let_def)
qed

lemma evolves_handle_client: "evolves st (snd (handle_client net sock ad first evs st))"
proof -
  obtain fl fr st1 where h: "handshake net sock ad first st = (fl, fr, st1)"
    by (cases "handshake net sock ad first st") auto
  with evolves_handshake [of st net sock ad first] have 1: "evolves st st1" by simp
  show ?thesis
  proof (cases fl)
    case Leave
    from evolves_trans [OF 1 evolves_cleanup] h Leave show ?thesis
      by (simp add: handle_client_def)
  next
    case (Proceed nm)
    obtain ex st2 where r: "recv_loop sock nm evs st1 = (ex, st2)"
      by (cases "recv_loop sock nm evs st1")
    with evolves_recv_loop [of st1 sock nm evs] have "evolves st1 st2" by simp
    with 1 have 2: "evolves st st2" by (rule evolves_trans)
    show ?thesis
    proof (cases ex)
      case Blocked
      with 2 h Proceed r show ?thesis by (simp add: handle_client_def)
    next
      case Left
      with evolves_trans [OF 2 evolves_cleanup] h Proceed r show ?thesis
        by (simp add: handle_client_def)
    qed
  qed
qed

subsection \<open>Executions\<close>

lemma evolves_step: "evolves st (step net a st)"
proof (cases a)
  case (Do_on_data s nm data)
  then show ?thesis
    by (cases "on_data s nm data st") (simp_all add: step_def evolves_refl evolves_on_data)
next
  case (Do_sendall s b)
  with evolves_sendall [of st net s b] show ?thesis by (simp add: step_def)
next
  case (Do_deregister s nm)
  with evolves_deregister [of st s nm] show ?thesis by (simp add: step_def)
qed (simp_all add: step_def evolves_put evolves_get_item evolves_handshake_register
      evolves_safe_close evolves_put_sentinel evolves_set_shutdown evolves_close_listener
      evolves_join_thread evolves_join_sender evolves_clear_registry
      evolves_handshake evolves_recv_loop evolves_cleanup
      evolves_handle_client evolves_sender evolves_broadcast evolves_accept_loop
      evolves_close_client evolves_main_finally evolves_main)

lemma run_Nil [simp]: "run net [] st = st"
  by (simp add: run_def)

lemma run_Cons [simp]: "run net (a # acts) st = run net acts (step net a st)"
  by (simp add: run_def)

lemma evolves_run: "evolves st (run net acts st)"
proof (induction acts arbitrary: st)
  case Nil
  show ?case by (simp add: evolves_refl)
next
  case (Cons a acts)
  from evolves_trans [OF evolves_step Cons.IH] show ?case by simp
qed

subsection \<open>The shutdown\<close>


lemma close_client_fields [simp]:
  "clients (close_client s st) = clients st"
  "next_qid (close_client s st) = next_qid st"
  "shutting_down (close_client s st) = shutting_down st"
  "closed (close_client s st) = insert s (closed st)"
  "sent (close_client s st) = sent st"
  "listening (close_client s st) = listening st"
  "threads (close_client s st) = threads st"
  by (simp_all add: close_client_def put_sentinel_def split: option.splits)



lemma main_finally_eq:
  "main_finally st =
     clear_registry (join_threads (close_listener (fold close_client (map fst (clients st)) st)))"
  by (simp add: main_finally_def Let_def)








lemma run_steps_simps [simp]:
  "run_steps [] st = st"
  "run_steps (f # fs) st = run_steps fs (f st)"
  by (simp_all add: run_steps_def)



lemma main_finally_down:
  assumes "clients st = []" and "\<not> listening st"
  shows "main_finally st = st\<lparr>trace := trace st @ map Ev_join (threads st) @ [Ev_clear]\<rparr>"
  using assms
  by (simp add: main_finally_eq clear_registry_def join_threads_def close_listener_def)

lemma main_finally_twice:
  "main_finally (main_finally st) =
     (main_finally st)\<lparr>trace := trace (main_finally st)
                          @ map Ev_join (threads (main_finally st)) @ [Ev_clear]\<rparr>"
proof (rule main_finally_down)
  show "clients (main_finally st) = []"
    by (simp add: main_finally_eq clear_registry_def)
  show "\<not> listening (main_finally st)"
    by (simp add: main_finally_eq clear_registry_def join_threads_def close_listener_def)
qed


lemma shutting_down_main_finally: "shutting_down st \<Longrightarrow> shutting_down (main_finally st)"
  using evolves_main_finally [of st] by (simp add: evolves_def)


lemma on_data_broadcast:
  assumes "data \<noteq> []" and "list_all scalar nm"
  shows "\<exists>m. encode (chat_line nm (terminate_line (decode data))) = Some m
           \<and> on_data sock nm data st = Some (broadcast m (Some sock) st)"
proof -
  from encode_total [OF valid_chat_line [OF assms(2) valid_terminate_line [OF valid_decode]]]
  obtain m where "encode (chat_line nm (terminate_line (decode data))) = Some m" ..
  with assms(1) show ?thesis by (simp add: on_data_def)
qed

lemma encode_Ana_hola:
  "encode (chat_line (ascii ''Ana'') (terminate_line (decode (ascii ''hola'' @ [0x0A]))))
     = Some (ascii ''Ana: hola'' @ [0x0A])"
  by (simp add: text_defs)

lemma encode_Leo_hi:
  "encode (chat_line (ascii ''Leo'') (terminate_line (decode (ascii ''hi''))))
     = Some (ascii ''Leo: hi'' @ [0x0A])"
  by (simp add: text_defs)


subsection \<open>A failed handshake\<close>

lemma registry_ok_same:
  assumes "registry_ok st" and "clients st' = clients st" and "next_qid st \<le> next_qid st'"
  shows "registry_ok st'"
  using assms by (auto simp: registry_ok_def list_all_iff)

lemma handshake_leave_obtain:
  assumes "fst (handshake net sock ad first st) = Leave"
  obtains stx new where
    "handshake net sock ad first st =
       (Leave, \<lparr>fr_name = None, send_queue = next_qid st, send_thread = False\<rparr>, stx)"
    "clients stx = clients st" "next_qid stx = Suc (next_qid st)"
    "queues stx = (queues st)(next_qid st := [])"
    "trace stx = trace st @ new" "set new \<subseteq> {Ev_send sock WELCOME_BYTES, Ev_close sock}"
proof -
  from assms have "sock \<in> closed st \<or> \<not> net sock (length (sent st sock))
     \<or> first = Timeout \<or> first = Conn_error \<or> first = Other_error \<or> first = Data []"
    by (simp add: handshake_Leave_iff)
  with handshake_leave [where net = net and sock = sock and st = st and first = first
      and ad = ad]
  have "\<exists>st'. handshake net sock ad first st =
           (Leave, \<lparr>fr_name = None, send_queue = next_qid st, send_thread = False\<rparr>, st')
      \<and> clients st' = clients st \<and> next_qid st' = Suc (next_qid st)
      \<and> queues st' = (queues st)(next_qid st := [])
      \<and> shutting_down st' = shutting_down st
      \<and> (\<exists>new. trace st' = trace st @ new \<and> set new \<subseteq> {Ev_send sock WELCOME_BYTES, Ev_close sock})"
    by simp
  then show thesis using that by (elim exE conjE) 
qed


lemma trace_safe_close:
  "trace (safe_close s st) = trace st @ (if s \<in> closed st then [] else [Ev_close s])"
  by (simp add: safe_close_eq)

lemma failed_handshake_state:
  assumes fresh: "sock \<notin> set (map fst (clients st))"
    and fail: "fst (handshake net sock ad first st) = Leave"
  obtains stx new where
    "handle_client net sock ad first evs st =
       (Left, safe_close sock (put (next_qid st) None
          (broadcast (ascii '' Desconocido abandon'' @ [0xC3, 0xB3] @ ascii '' el chat.'' @ [0x0A])
             (Some sock) stx)))"
    "clients stx = clients st" "next_qid stx = Suc (next_qid st)"
    "queues stx = (queues st)(next_qid st := [])"
    "trace stx = trace st @ new" "set new \<subseteq> {Ev_send sock WELCOME_BYTES, Ev_close sock}"
proof -
  let ?fr = "\<lparr>fr_name = None, send_queue = next_qid st, send_thread = False\<rparr>"
  from fail obtain stx new where x:
    "handshake net sock ad first st = (Leave, ?fr, stx)"
    "clients stx = clients st" "next_qid stx = Suc (next_qid st)"
    "queues stx = (queues st)(next_qid st := [])"
    "trace stx = trace st @ new" "set new \<subseteq> {Ev_send sock WELCOME_BYTES, Ev_close sock}"
    by (rule handshake_leave_obtain)
  from fresh x(2) have "sock \<notin> set (map fst (clients stx))" by simp
  from cleanup_absent [OF this, of ?fr]
  have "cleanup sock ?fr stx =
      safe_close sock (put (next_qid st) None
          (broadcast (ascii '' Desconocido abandon'' @ [0xC3, 0xB3] @ ascii '' el chat.'' @ [0x0A])
             (Some sock) stx))"
    by (simp add: encode_leave_DESCONOCIDO Let_def)
  with x(1) have "handle_client net sock ad first evs st =
       (Left, safe_close sock (put (next_qid st) None
          (broadcast (ascii '' Desconocido abandon'' @ [0xC3, 0xB3] @ ascii '' el chat.'' @ [0x0A])
             (Some sock) stx)))"
    by (simp add: handle_client_def)
  then show thesis using x(2-6) by (rule that)
qed


lemma failed_handshake_effects:
  assumes ok: "registry_ok st" and fresh: "sock \<notin> set (map fst (clients st))"
    and fail: "fst (handshake net sock ad first st) = Leave"
  shows "fst (handle_client net sock ad first evs st) = Left"
    and "clients (snd (handle_client net sock ad first evs st)) = clients st"
    and "sock \<in> closed (snd (handle_client net sock ad first evs st))"
    and "\<forall>(s, c) \<in> set (clients st).
          queues (snd (handle_client net sock ad first evs st)) (queue c) =
            queues st (queue c)
            @ [Some (ascii '' Desconocido abandon'' @ [0xC3, 0xB3] @ ascii '' el chat.'' @ [0x0A])]"
    and "queues (snd (handle_client net sock ad first evs st)) (next_qid st) = [None]"
    and "\<exists>new. trace (snd (handle_client net sock ad first evs st)) = trace st @ new
            \<and> (\<forall>s. Ev_register s \<notin> set new)"
proof -
  let ?U = "ascii '' Desconocido abandon'' @ [0xC3, 0xB3] @ ascii '' el chat.'' @ [0x0A]"
  let ?n = "next_qid st"
  from fresh fail obtain stx new where x:
    "handle_client net sock ad first evs st =
       (Left, safe_close sock (put ?n None (broadcast ?U (Some sock) stx)))"
    "clients stx = clients st" "next_qid stx = Suc ?n" "queues stx = (queues st)(?n := [])"
    "trace stx = trace st @ new" "set new \<subseteq> {Ev_send sock WELCOME_BYTES, Ev_close sock}"
    by (rule failed_handshake_state)
  let ?b = "broadcast ?U (Some sock) stx"
  let ?st' = "safe_close sock (put ?n None ?b)"
  have h: "snd (handle_client net sock ad first evs st) = ?st'" by (simp add: x(1))
  have okx: "registry_ok stx"
  proof (rule registry_ok_same [OF ok])
    show "clients stx = clients st" by (rule x(2))
    show "next_qid st \<le> next_qid stx" by (simp add: x(3))
  qed
  from ok have lt: "\<And>p. p \<in> set (clients st) \<Longrightarrow> queue (snd p) < ?n"
    by (simp add: registry_ok_def list_all_iff)
  then have nreg: "?n \<notin> set (map (queue \<circ> snd) (clients stx))"
    unfolding x(2) by force
  show "fst (handle_client net sock ad first evs st) = Left" by (simp add: x(1))
  show "clients (snd (handle_client net sock ad first evs st)) = clients st"
    unfolding h by (simp add: x(2))
  show "sock \<in> closed (snd (handle_client net sock ad first evs st))"
    unfolding h by simp
  show "queues (snd (handle_client net sock ad first evs st)) ?n = [None]"
    unfolding h using queues_broadcast_other [OF nreg, of ?U "Some sock"] by (simp add: x(4))
  show "\<exists>new. trace (snd (handle_client net sock ad first evs st)) = trace st @ new
            \<and> (\<forall>s. Ev_register s \<notin> set new)"
  proof -
    let ?new = "new @ map (\<lambda>q. Ev_put q (Some ?U)) (snapshot (Some sock) stx)
                @ [Ev_put ?n None]
                @ (if sock \<in> closed (put ?n None ?b) then [] else [Ev_close sock])"
    have t: "trace ?st' = trace st @ ?new"
      unfolding trace_safe_close by (simp add: trace_broadcast x(5))
    have "Ev_register s \<notin> set new" for s using x(6) by blast
    then have "\<forall>s. Ev_register s \<notin> set ?new" by auto
    with t show ?thesis unfolding h by blast
  qed
  show "\<forall>(s, c) \<in> set (clients st).
          queues (snd (handle_client net sock ad first evs st)) (queue c) =
            queues st (queue c) @ [Some ?U]"
  proof (intro ballI)
    fix p assume p: "p \<in> set (clients st)"
    obtain s c where sc: "p = (s, c)" by (cases p)
    from p sc fresh have ne: "s \<noteq> sock" by force
    from p sc lt [of p] have qn: "queue c \<noteq> ?n" by simp
    from p sc x(2) have "(s, c) \<in> set (clients stx)" by simp
    from queues_broadcast_registered [OF okx this, of ?U "Some sock"] ne qn
    have "queues ?st' (queue c) = queues st (queue c) @ [Some ?U]"
      by (simp add: x(4))
    then show "case p of (s, c) \<Rightarrow>
          queues (snd (handle_client net sock ad first evs st)) (queue c) =
            queues st (queue c) @ [Some ?U]"
      unfolding h sc by simp
  qed
qed

lemma strip_decode_newline: "strip (decode [0x0A]) = []"
  by (simp add: text_defs)

lemma handshake_Timeout_chat: "fst (handshake net_up 3 peer Timeout chat_ana_leo) = Leave"
  by (simp add: handshake_Leave_iff)

lemma handshake_empty_chat: "fst (handshake net_up 3 peer (Data []) chat_ana_leo) = Leave"
  by (simp add: handshake_Leave_iff)

lemma fresh_3_chat: "3 \<notin> set (map fst (clients chat_ana_leo))"
  by (simp add: chat_ana_leo_eq)

lemma leo_registered:
  "(2, \<lparr>name = ascii ''Leo'', queue = 1, addr = peer\<rparr>) \<in> set (clients chat_ana_leo)"
  by (simp add: chat_ana_leo_eq)


lemma map_of_update_same: "map_of (AList.update k v al) k = Some v"
  by (simp add: update_conv')

lemma handshake_blank:
  assumes "sock \<notin> closed st" and "net sock (length (sent st sock))" and "data \<noteq> []"
    and "strip (decode data) = []"
  obtains m where "encode (join_notice ANON) = Some m"
    "handshake net sock ad (Data data) st =
       (Proceed ANON, \<lparr>fr_name = Some ANON, send_queue = next_qid st, send_thread = True\<rparr>,
        broadcast m (Some sock)
          (register sock \<lparr>name = ANON, queue = next_qid st, addr = ad\<rparr>
             (st\<lparr>queues := (queues st)(next_qid st := []), next_qid := Suc (next_qid st),
                 sent := (sent st)(sock := sent st sock @ [WELCOME_BYTES]),
                 trace := trace st @ [Ev_send sock WELCOME_BYTES]\<rparr>)))"
proof -
  from handshake_active [where net = net and sock = sock and st = st and data = data
      and ad = ad] assms(1-3)
  obtain m where "encode (join_notice (let n = strip (decode data) in if n = [] then ANON else n)) = Some m"
    "handshake net sock ad (Data data) st =
       (Proceed (let n = strip (decode data) in if n = [] then ANON else n),
        \<lparr>fr_name = Some (let n = strip (decode data) in if n = [] then ANON else n),
         send_queue = next_qid st, send_thread = True\<rparr>,
        broadcast m (Some sock)
          (register sock
             \<lparr>name = (let n = strip (decode data) in if n = [] then ANON else n),
              queue = next_qid st, addr = ad\<rparr>
             (st\<lparr>queues := (queues st)(next_qid st := []), next_qid := Suc (next_qid st),
                 sent := (sent st)(sock := sent st sock @ [WELCOME_BYTES]),
                 trace := trace st @ [Ev_send sock WELCOME_BYTES]\<rparr>)))"
    by blast
  then show thesis using assms(4) that by (simp add: Let_def)
qed


subsection \<open>The queue of a client that left\<close>

lemma frame_ana_eq:
  "frame_ana = \<lparr>fr_name = Some (ascii ''Ana''), send_queue = 0, send_thread = True\<rparr>"
  unfolding frame_ana_def handshake_Ana by simp

lemma encode_leave_Ana:
  "encode (leave_notice (ascii ''Ana'')) =
     Some (ascii '' Ana abandon'' @ [0xC3, 0xB3] @ ascii '' el chat.'' @ [0x0A])"
  by (simp add: text_defs)

lemma popped_queue_unregistered:
  assumes "registry_ok st" and "map_of (clients st) sock = Some c"
  shows "queue c \<notin> set (map (queue \<circ> snd) (AList.delete sock (clients st)))"
proof
  assume "queue c \<in> set (map (queue \<circ> snd) (AList.delete sock (clients st)))"
  then obtain p where p: "p \<in> set (clients st)" "fst p \<noteq> sock"
    "(queue \<circ> snd) p = (queue \<circ> snd) (sock, c)"
    by (auto simp: AList.delete_eq)
  from assms(1) have inj: "inj_on (queue \<circ> snd) (set (clients st))"
    by (simp add: registry_ok_def distinct_map)
  from assms(2) have mem: "(sock, c) \<in> set (clients st)" by (rule map_of_SomeD)
  from inj_onD [OF inj p(3) p(1) mem] have "p = (sock, c)" .
  with p(2) show False by simp
qed

lemma cleanup_registered:
  assumes ok: "registry_ok st" and reg: "map_of (clients st) sock = Some c"
    and fr: "send_queue fr = queue c"
  shows "sock \<notin> set (map fst (clients (cleanup sock fr st)))"
    and "queues (cleanup sock fr st) (queue c) = queues st (queue c) @ [None]"
    and "detached (queue c) (cleanup sock fr st)"
    and "\<exists>mid rest. trace (cleanup sock fr st)
           = trace st @ Ev_pop sock # mid @ Ev_put (queue c) None # rest"
proof -
  let ?st1 = "st\<lparr>clients := AList.delete sock (clients st), trace := trace st @ [Ev_pop sock]\<rparr>"
  let ?st2 = "case encode (leave_notice (name c)) of
                None \<Rightarrow> ?st1 | Some m \<Rightarrow> broadcast m (Some sock) ?st1"
  let ?st4 = "safe_close sock (put (queue c) None ?st2)"
  have c: "cleanup sock fr st = (if send_thread fr then join_sender sock ?st4 else ?st4)"
    by (simp add: cleanup_present [OF reg] fr Let_def)
  have nreg: "queue c \<notin> set (map (queue \<circ> snd) (clients ?st1))"
    using popped_queue_unregistered [OF ok reg] by simp
  have cl2: "clients ?st2 = AList.delete sock (clients st)"
    by (cases "encode (leave_notice (name c))") simp_all
  have nq2: "next_qid ?st2 = next_qid st"
    by (cases "encode (leave_notice (name c))") simp_all
  have q2: "queues ?st2 (queue c) = queues st (queue c)"
    using queues_broadcast_other [OF nreg]
    by (cases "encode (leave_notice (name c))") simp_all
  have t2: "\<exists>mid. trace ?st2 = trace st @ Ev_pop sock # mid"
    by (cases "encode (leave_notice (name c))") (simp_all add: trace_broadcast)
  then obtain mid where mid: "trace ?st2 = trace st @ Ev_pop sock # mid" ..
  have cl: "clients (cleanup sock fr st) = AList.delete sock (clients st)"
    unfolding c by (simp add: cl2 join_sender_def)
  show "sock \<notin> set (map fst (clients (cleanup sock fr st)))"
    unfolding cl by (simp add: delete_notin_dom)
  show "queues (cleanup sock fr st) (queue c) = queues st (queue c) @ [None]"
    unfolding c by (simp add: q2 join_sender_def)
  from reg have "(sock, c) \<in> set (clients st)" by (rule map_of_SomeD)
  with ok have "queue c < next_qid st" by (force simp: registry_ok_def list_all_iff)
  moreover have "next_qid (cleanup sock fr st) = next_qid st"
    unfolding c by (simp add: nq2 join_sender_def)
  ultimately show "detached (queue c) (cleanup sock fr st)"
    unfolding detached_def cl using popped_queue_unregistered [OF ok reg] by simp
  have "trace ?st4 = trace st @ Ev_pop sock # mid @ Ev_put (queue c) None
           # (if sock \<in> closed (put (queue c) None ?st2) then [] else [Ev_close sock])"
    unfolding trace_safe_close by (simp add: mid)
  then show "\<exists>mid rest. trace (cleanup sock fr st)
           = trace st @ Ev_pop sock # mid @ Ev_put (queue c) None # rest"
    unfolding c by (auto simp: join_sender_def)
qed

lemma detached_run:
  assumes "detached q st"
  shows "detached q (run net acts st)"
    and "q \<notin> set (snapshot ex (run net acts st))"
    and "queues (broadcast m ex (run net acts st)) q = queues (run net acts st) q"
proof -
  from evolves_run [of st net acts] assms
  show d: "detached q (run net acts st)"
    by (simp_all add: evolves_def)
  from d have n: "q \<notin> set (map (queue \<circ> snd) (clients (run net acts st)))"
    by (simp add: detached_def)
  with snapshot_subset [of ex "run net acts st"]
  show "q \<notin> set (snapshot ex (run net acts st))" by auto
  from n show "queues (broadcast m ex (run net acts st)) q = queues (run net acts st) q"
    by (rule queues_broadcast_other)
qed

lemma shutdown_rounds_chat:
  "close_client 2 (close_client 1 chat_ana_leo) =
     chat_ana_leo\<lparr>queues := (queues chat_ana_leo)(0 := queues chat_ana_leo 0 @ [None], 1 := [None]),
                  closed := {1, 2},
                  trace := trace chat_ana_leo @ [Ev_put 0 None, Ev_close 1, Ev_put 1 None, Ev_close 2]\<rparr>"
  unfolding chat_ana_leo_eq
  by (simp add: close_client_def put_sentinel_def put_def safe_close_eq fun_eq_iff insert_commute)

subsection \<open>The shutdown, statement by statement\<close>







lemma threads_fold_close_client [simp]:
  "threads (fold close_client socks st) = threads st"
  by (induction socks arbitrary: st) simp_all




subsection \<open>The shutdown signal\<close>














subsection \<open>A broadcast as a sequence of puts, and the blank name\<close>

lemma enqueue_all_as_run:
  "enqueue_all qs x st = run net (map (\<lambda>q. Do_put q x) qs) st"
  by (induction qs arbitrary: st) (simp_all add: step_def)

lemma broadcast_as_puts:
  "broadcast m ex st = run net (map (\<lambda>q. Do_put q (Some m)) (snapshot ex st)) st"
  by (simp add: broadcast_def enqueue_all_as_run)

lemma encode_Anon_hi:
  "encode (chat_line ANON (terminate_line (decode (ascii ''hi'')))) = Some (ascii ''Anon: hi'' @ [0x0A])"
  by (simp add: text_defs)

lemma valid_ANON: "list_all scalar ANON"
  unfolding ANON_def by (rule valid_ascii)

lemma blank_active:
  assumes "sock \<notin> closed st" and "net sock (length (sent st sock))" and "data \<noteq> []"
    and "strip (decode data) = []"
  obtains fr st' where
    "handshake net sock ad (Data data) st = (Proceed ANON, fr, st')"
    "fr = \<lparr>fr_name = Some ANON, send_queue = next_qid st, send_thread = True\<rparr>"
    "map_of (clients st') sock = Some \<lparr>name = ANON, queue = next_qid st, addr = ad\<rparr>"
    "closed st' = closed st" "shutting_down st' = shutting_down st"
    "sent st' sock = sent st sock @ [WELCOME_BYTES]"
    "set (map fst (clients st')) = insert sock (set (map fst (clients st)))"
    "registry_ok st \<longrightarrow> registry_ok st'"
    "registry_ok st \<longrightarrow> queues st' (next_qid st) = []"
proof -
  from assms obtain m where m:
    "handshake net sock ad (Data data) st =
       (Proceed ANON, \<lparr>fr_name = Some ANON, send_queue = next_qid st, send_thread = True\<rparr>,
        broadcast m (Some sock)
          (register sock \<lparr>name = ANON, queue = next_qid st, addr = ad\<rparr>
             (st\<lparr>queues := (queues st)(next_qid st := []), next_qid := Suc (next_qid st),
                 sent := (sent st)(sock := sent st sock @ [WELCOME_BYTES]),
                 trace := trace st @ [Ev_send sock WELCOME_BYTES]\<rparr>)))"
    by (rule handshake_blank [where ad = ad])
  let ?c = "\<lparr>name = ANON, queue = next_qid st, addr = ad\<rparr>"
  let ?st2 = "register sock ?c
             (st\<lparr>queues := (queues st)(next_qid st := []), next_qid := Suc (next_qid st),
                 sent := (sent st)(sock := sent st sock @ [WELCOME_BYTES]),
                 trace := trace st @ [Ev_send sock WELCOME_BYTES]\<rparr>)"
  let ?st' = "broadcast m (Some sock) ?st2"
  have reg: "map_of (clients ?st') sock = Some ?c" by (simp add: map_of_update_same)
  have ok': "registry_ok ?st'" if ok: "registry_ok st"
    using evolves_handshake [of st net sock ad "Data data"] ok m by (simp add: evolves_def)
  have fresh: "queues ?st' (next_qid st) = []" if ok: "registry_ok st"
  proof -
    from ok' [OF ok] have d: "distinct (map fst (clients ?st2))" by (simp add: registry_ok_def)
    from reg have mem: "(sock, ?c) \<in> set (clients ?st2)" by (auto dest: map_of_SomeD)
    have ok2: "registry_ok ?st2" using ok' [OF ok] by (simp add: registry_ok_def)
    from queues_broadcast_registered [OF ok2 mem, of m "Some sock"]
    show ?thesis by simp
  qed
  have keys: "set (map fst (clients ?st')) = insert sock (set (map fst (clients st)))"
    by (simp add: dom_update [unfolded dom_map_of_conv_image_fst] image_image)
  from ok' fresh have imp: "registry_ok st \<longrightarrow> registry_ok ?st'"
    "registry_ok st \<longrightarrow> queues ?st' (next_qid st) = []"
    by blast+
  show thesis
    by (rule that [OF m refl reg _ _ _ keys imp]) simp_all
qed

lemma detached_after_deregister:
  assumes "registry_ok st" and "map_of (clients st) sock = Some c"
  shows "detached (queue c) (step net (Do_deregister sock nm) st)"
proof -
  from assms(2) have "(sock, c) \<in> set (clients st)" by (rule map_of_SomeD)
  with assms(1) have "queue c < next_qid st" by (force simp: registry_ok_def list_all_iff)
  with popped_queue_unregistered [OF assms] show ?thesis
    by (simp add: step_def deregister_present [OF assms(2)] detached_def)
qed

lemma cleanup_ana:
  "cleanup 1 frame_ana chat_ana_leo =
     chat_ana_leo\<lparr>clients := [(2, \<lparr>name = ascii ''Leo'', queue = 1, addr = peer\<rparr>)],
       queues := (queues chat_ana_leo)
         (1 := [Some (ascii '' Ana abandon'' @ [0xC3, 0xB3] @ ascii '' el chat.'' @ [0x0A])],
          0 := queues chat_ana_leo 0 @ [None]),
       closed := {1},
       trace := trace chat_ana_leo @ [Ev_pop 1,
          Ev_put 1 (Some (ascii '' Ana abandon'' @ [0xC3, 0xB3] @ ascii '' el chat.'' @ [0x0A])),
          Ev_put 0 None, Ev_close 1, Ev_join_sender 1]\<rparr>"
  unfolding frame_ana_eq chat_ana_leo_eq
  by (simp add: cleanup_def deregister_def dict_pop_def encode_leave_Ana broadcast_def
        snapshot_def put_def safe_close_eq join_sender_def Let_def fun_eq_iff)

lemma step_cleanup: "step net (Do_cleanup s fr) st = cleanup s fr st"
  by (simp add: step_def)

lemma step_put: "step net (Do_put q x) st = put q x st"
  by (simp add: step_def)

section \<open>The claims\<close>

text \<open>
  C1. A broadcast leaves the registry as it is and appends the payload once to the queue of
  every registered client other than the excluded connection; the queue of the excluded
  connection, and every queue that no record refers to, is left as it was.
\<close>

theorem broadcast_fanout:
  assumes "registry_ok st"
  shows "clients (broadcast msg_bytes exclude_sock st) = clients st
    \<and> (\<forall>(s, c) \<in> set (clients st).
          queues (broadcast msg_bytes exclude_sock st) (queue c) =
            (if exclude_sock = Some s then queues st (queue c)
             else queues st (queue c) @ [Some msg_bytes]))
    \<and> (\<forall>q. q \<notin> set (map (queue \<circ> snd) (clients st)) \<longrightarrow>
          queues (broadcast msg_bytes exclude_sock st) q = queues st q)"
  using assms by (auto simp: queues_broadcast_registered queues_broadcast_other)

theorem broadcast_fanout_witness:
  "registry_ok chat_ana_leo
   \<and> queues (broadcast (ascii ''hi'') (Some 1) chat_ana_leo) 1 = [Some (ascii ''hi'')]
   \<and> queues (broadcast (ascii ''hi'') (Some 1) chat_ana_leo) 0 = queues chat_ana_leo 0"
proof -
  have w: "registry_ok chat_ana_leo" by (rule registry_ok_chat_ana_leo)
  from broadcast_fanout [OF w, of "ascii ''hi''" "Some 1"] w show ?thesis
    by (simp add: chat_ana_leo_eq)
qed

text \<open>
  C7. Deregistering never raises; when the connection is absent the state is returned
  unchanged; and after any deregistration a second one of the same connection changes
  nothing.
\<close>

theorem deregister_absent_noop:
  "(\<exists>left st'. deregister s nm st = Inr (left, st'))
   \<and> (s \<notin> set (map fst (clients st)) \<longrightarrow> (\<exists>left. deregister s nm st = Inr (left, st)))
   \<and> (\<forall>left st'. deregister s nm st = Inr (left, st') \<longrightarrow>
         (\<exists>left'. deregister s nm' st' = Inr (left', st')))"
proof (cases rule: deregister_cases [of st s])
  case (1 c)
  let ?st' = "st\<lparr>clients := AList.delete s (clients st), trace := trace st @ [Ev_pop s]\<rparr>"
  have gone: "s \<notin> set (map fst (clients ?st'))"
    by (simp add: delete_notin_dom)
  from 1 have "s \<in> set (map fst (clients st))"
    by (metis map_of_eq_None_iff option.distinct(1) set_map)
  with deregister_present [OF 1] deregister_absent [OF gone] show ?thesis
    by auto
next
  case 2
  with deregister_absent [OF 2] show ?thesis by auto
qed

theorem deregister_absent_noop_witness:
  "3 \<notin> set (map fst (clients chat_ana_leo))
   \<and> (\<exists>left. deregister 3 None chat_ana_leo = Inr (left, chat_ana_leo))"
proof -
  have a: "3 \<notin> set (map fst (clients chat_ana_leo))" by (simp add: chat_ana_leo_eq)
  with deregister_absent_noop [of 3 None chat_ana_leo] show ?thesis by blast
qed

text \<open>
  C10. The normalised text ends with the line terminator, a text that already ends with it
  is returned unchanged, and normalising twice is normalising once.
\<close>

theorem terminate_line_idempotent:
  "endswith_newline (terminate_line s)
   \<and> (endswith_newline s \<longrightarrow> terminate_line s = s)
   \<and> terminate_line (terminate_line s) = terminate_line s"
  by (simp add: terminate_line_def endswith_newline_def)

theorem terminate_line_idempotent_witness:
  "endswith_newline (ascii ''hola'' @ [NEWLINE])
   \<and> terminate_line (ascii ''hola'' @ [NEWLINE]) = ascii ''hola'' @ [NEWLINE]"
proof -
  have e: "endswith_newline (ascii ''hola'' @ [NEWLINE])" by (simp add: endswith_newline_def)
  with terminate_line_idempotent [of "ascii ''hola'' @ [NEWLINE]"] show ?thesis by blast
qed

text \<open>
  C6. Let the sender find in its queue the payloads \<open>pre\<close>, all of which the socket accepts.
  If nothing follows them the thread is still waiting in \<^verbatim>\<open>get\<close>: payloads do not end
  the loop. If the sentinel follows, the loop ends with exactly the payloads of \<open>pre\<close>
  written: the sentinel is consumed and not written, and what was queued behind it stays
  queued. If a payload follows whose write fails, the loop ends too. In every case the
  registry and every other queue are as they were.
\<close>

theorem sender_thread_stops_on_sentinel_or_failure:
  assumes "None \<notin> set pre"
    and "\<forall>i<length pre. sock \<notin> closed st \<and> net sock (length (sent st sock) + i)"
  shows "(queues st q = pre \<longrightarrow>
            (\<exists>st'. sender_thread_func net sock q st = (Blocked, st')
               \<and> sent st' sock = sent st sock @ payloads pre))
    \<and> (\<forall>rest. queues st q = pre @ None # rest \<longrightarrow>
            (\<exists>st'. sender_thread_func net sock q st = (Left, st') \<and> queues st' q = rest
               \<and> sent st' sock = sent st sock @ payloads pre))
    \<and> (\<forall>b rest. queues st q = pre @ Some b # rest
            \<and> (sock \<in> closed st \<or> \<not> net sock (length (sent st sock) + length pre)) \<longrightarrow>
            (\<exists>st'. sender_thread_func net sock q st = (Left, st') \<and> queues st' q = rest
               \<and> sent st' sock = sent st sock @ payloads pre))
    \<and> clients (snd (sender_thread_func net sock q st)) = clients st
    \<and> (\<forall>q'. q' \<noteq> q \<longrightarrow> queues (snd (sender_thread_func net sock q st)) q' = queues st q')"
proof (intro conjI allI impI)
  assume "queues st q = pre"
  with sender_blocks [where pre = pre and sock = sock and st = st and net = net and q = q] assms
  show "\<exists>st'. sender_thread_func net sock q st = (Blocked, st')
          \<and> sent st' sock = sent st sock @ payloads pre"
    by blast
next
  fix rest assume "queues st q = pre @ None # rest"
  with sender_sentinel [where pre = pre and sock = sock and st = st and net = net and q = q
      and rest = rest] assms
  show "\<exists>st'. sender_thread_func net sock q st = (Left, st') \<and> queues st' q = rest
          \<and> sent st' sock = sent st sock @ payloads pre"
    by blast
next
  fix b rest
  assume "queues st q = pre @ Some b # rest
            \<and> (sock \<in> closed st \<or> \<not> net sock (length (sent st sock) + length pre))"
  with sender_write_failure [where pre = pre and sock = sock and st = st and net = net
      and q = q and rest = rest and b = b] assms
  show "\<exists>st'. sender_thread_func net sock q st = (Left, st') \<and> queues st' q = rest
          \<and> sent st' sock = sent st sock @ payloads pre"
    by blast
next
  obtain ex st' where r: "sender_thread_func net sock q st = (ex, st')"
    by (cases "sender_thread_func net sock q st")
  from sender_frame [OF r] r
  show "clients (snd (sender_thread_func net sock q st)) = clients st" by simp
  fix q' assume "q' \<noteq> q"
  with sender_frame [OF r] r
  show "queues (snd (sender_thread_func net sock q st)) q' = queues st q'" by simp
qed

theorem sender_thread_stops_on_sentinel_or_failure_witness:
  "None \<notin> set [Some (ascii ''hola'')]
   \<and> 1 \<notin> closed (put 0 None (put 0 (Some (ascii ''hola'')) init))
   \<and> net_up 1 (length (sent (put 0 None (put 0 (Some (ascii ''hola'')) init)) 1))
   \<and> queues (put 0 None (put 0 (Some (ascii ''hola'')) init)) 0 = [Some (ascii ''hola'')] @ None # []
   \<and> (\<exists>st'. sender_thread_func net_up 1 0 (put 0 None (put 0 (Some (ascii ''hola'')) init))
               = (Left, st')
          \<and> queues st' 0 = [] \<and> sent st' 1 = [ascii ''hola''])"
proof -
  let ?st = "put 0 None (put 0 (Some (ascii ''hola'')) init)"
  have a: "None \<notin> set [Some (ascii ''hola'')]" by simp
  have b: "\<forall>i<length [Some (ascii ''hola'')]. 1 \<notin> closed ?st
             \<and> net_up 1 (length (sent ?st 1) + i)"
    by (simp add: init_def net_up_def)
  have c: "queues ?st 0 = [Some (ascii ''hola'')] @ None # []"
    by (simp add: init_def)
  have d: "sent ?st 1 = []" by (simp add: init_def)
  from sender_thread_stops_on_sentinel_or_failure
         [where pre = "[Some (ascii ''hola'')]" and sock = 1 and st = ?st and net = net_up
            and q = 0] a b c d
  show ?thesis by (simp add: init_def net_up_def)
qed

text \<open>
  C2. A non-empty chunk read from an active client whose name is \<open>nm\<close> is decoded, given a
  final line terminator when it has none, prefixed with the name and a colon, encoded, and
  broadcast with the sender excluded: every other registered client gets exactly these bytes
  at the end of its queue, the sender's queue is untouched, and the receive loop goes on with
  the next read. With Ana on socket 1 and Leo on socket 2, the chunk \<^verbatim>\<open>hola\n\<close> from Ana
  puts exactly \<^verbatim>\<open>Ana: hola\n\<close> on Leo's queue and nothing on Ana's.
\<close>

theorem chat_line_broadcast:
  assumes "registry_ok st" and "data \<noteq> []" and "list_all scalar nm"
  shows "(\<exists>m. encode (chat_line nm (terminate_line (decode data))) = Some m
        \<and> on_data sock nm data st = Some (broadcast m (Some sock) st)
        \<and> (\<not> shutting_down st \<and> sock \<notin> closed st \<longrightarrow>
              recv_loop sock nm (Data data # evs) st
                = recv_loop sock nm evs (broadcast m (Some sock) st))
        \<and> (\<forall>(s, c) \<in> set (clients st).
              queues (broadcast m (Some sock) st) (queue c) =
                (if s = sock then queues st (queue c) else queues st (queue c) @ [Some m])))
    \<and> on_data 1 (ascii ''Ana'') (ascii ''hola'' @ [0x0A]) chat_ana_leo
         = Some (broadcast (ascii ''Ana: hola'' @ [0x0A]) (Some 1) chat_ana_leo)
    \<and> queues (broadcast (ascii ''Ana: hola'' @ [0x0A]) (Some 1) chat_ana_leo) 1
         = queues chat_ana_leo 1 @ [Some (ascii ''Ana: hola'' @ [0x0A])]
    \<and> queues (broadcast (ascii ''Ana: hola'' @ [0x0A]) (Some 1) chat_ana_leo) 0
         = queues chat_ana_leo 0"
proof (intro conjI)
  from on_data_broadcast [OF assms(2,3), of sock st] obtain m where m:
    "encode (chat_line nm (terminate_line (decode data))) = Some m"
    "on_data sock nm data st = Some (broadcast m (Some sock) st)"
    by blast
  have loop: "recv_loop sock nm (Data data # evs) st
                = recv_loop sock nm evs (broadcast m (Some sock) st)"
    if "\<not> shutting_down st \<and> sock \<notin> closed st"
    using that m(2) by (simp add: recv_def)
  have fan: "\<forall>(s, c) \<in> set (clients st).
              queues (broadcast m (Some sock) st) (queue c) =
                (if s = sock then queues st (queue c) else queues st (queue c) @ [Some m])"
    using queues_broadcast_registered [OF assms(1), of _ _ m "Some sock"] by auto
  from m loop fan
  show "\<exists>m. encode (chat_line nm (terminate_line (decode data))) = Some m
        \<and> on_data sock nm data st = Some (broadcast m (Some sock) st)
        \<and> (\<not> shutting_down st \<and> sock \<notin> closed st \<longrightarrow>
              recv_loop sock nm (Data data # evs) st
                = recv_loop sock nm evs (broadcast m (Some sock) st))
        \<and> (\<forall>(s, c) \<in> set (clients st).
              queues (broadcast m (Some sock) st) (queue c) =
                (if s = sock then queues st (queue c) else queues st (queue c) @ [Some m]))"
    by blast
  show "on_data 1 (ascii ''Ana'') (ascii ''hola'' @ [0x0A]) chat_ana_leo
         = Some (broadcast (ascii ''Ana: hola'' @ [0x0A]) (Some 1) chat_ana_leo)"
    unfolding on_data_def encode_Ana_hola by (simp add: ascii_def)
  have c: "clients chat_ana_leo =
     [(1, \<lparr>name = ascii ''Ana'', queue = 0, addr = peer\<rparr>),
      (2, \<lparr>name = ascii ''Leo'', queue = 1, addr = peer\<rparr>)]"
    by (simp add: chat_ana_leo_eq)
  from queues_broadcast_registered [OF registry_ok_chat_ana_leo,
      of 2 "\<lparr>name = ascii ''Leo'', queue = 1, addr = peer\<rparr>" "ascii ''Ana: hola'' @ [0x0A]" "Some 1"]
  show "queues (broadcast (ascii ''Ana: hola'' @ [0x0A]) (Some 1) chat_ana_leo) 1
         = queues chat_ana_leo 1 @ [Some (ascii ''Ana: hola'' @ [0x0A])]"
    by (simp add: c)
  from queues_broadcast_registered [OF registry_ok_chat_ana_leo,
      of 1 "\<lparr>name = ascii ''Ana'', queue = 0, addr = peer\<rparr>" "ascii ''Ana: hola'' @ [0x0A]" "Some 1"]
  show "queues (broadcast (ascii ''Ana: hola'' @ [0x0A]) (Some 1) chat_ana_leo) 0
         = queues chat_ana_leo 0"
    by (simp add: c)
qed

theorem chat_line_broadcast_witness:
  "registry_ok chat_ana_leo \<and> ascii ''hi'' \<noteq> [] \<and> list_all scalar (ascii ''Leo'')
   \<and> on_data 2 (ascii ''Leo'') (ascii ''hi'') chat_ana_leo
        = Some (broadcast (ascii ''Leo: hi'' @ [0x0A]) (Some 2) chat_ana_leo)
   \<and> queues (broadcast (ascii ''Leo: hi'' @ [0x0A]) (Some 2) chat_ana_leo) 0
        = queues chat_ana_leo 0 @ [Some (ascii ''Leo: hi'' @ [0x0A])]
   \<and> queues (broadcast (ascii ''Leo: hi'' @ [0x0A]) (Some 2) chat_ana_leo) 1 = []"
proof -
  have a: "registry_ok chat_ana_leo" by (rule registry_ok_chat_ana_leo)
  have b: "ascii ''hi'' \<noteq> []" by (simp add: ascii_def)
  have c: "list_all scalar (ascii ''Leo'')" by (rule valid_ascii)
  from chat_line_broadcast [OF a b c, of 2 "[]"] a b c show ?thesis
    unfolding encode_Leo_hi by (simp add: chat_ana_leo_eq)
qed

text \<open>
  C3, as stated, fails: with Ana and Leo connected, a third connection whose first read
  times out never enters the registry, and Leo's queue receives a leave notice for it.
\<close>

theorem failed_handshake_counterexample:
  "fst (handshake net_up 3 peer Timeout chat_ana_leo) = Leave
   \<and> clients (snd (handle_client net_up 3 peer Timeout [] chat_ana_leo)) = clients chat_ana_leo
   \<and> queues (snd (handle_client net_up 3 peer Timeout [] chat_ana_leo)) 1 =
       queues chat_ana_leo 1
       @ [Some (ascii '' Desconocido abandon'' @ [0xC3, 0xB3] @ ascii '' el chat.'' @ [0x0A])]"
proof -
  note e = failed_handshake_effects [OF registry_ok_chat_ana_leo fresh_3_chat
      handshake_Timeout_chat, of "[]"]
  from e(4) leo_registered
  have "queues (snd (handle_client net_up 3 peer Timeout [] chat_ana_leo)) 1 =
       queues chat_ana_leo 1
       @ [Some (ascii '' Desconocido abandon'' @ [0xC3, 0xB3] @ ascii '' el chat.'' @ [0x0A])]"
    by fastforce
  with e(2) handshake_Timeout_chat show ?thesis by simp
qed

text \<open>
  C3, amended. When the handshake of a new connection fails (the welcome cannot be sent, or
  the first read times out, raises, or is empty), the thread ends with the connection
  closed, the registry as it was and no registration in between, and no join notice; but
  the cleanup still broadcasts one leave notice, for the name \<^verbatim>\<open>Desconocido\<close>, to every
  registered client. Decoding cannot fail.
\<close>

theorem failed_handshake_leave_notice:
  assumes "registry_ok st" and "sock \<notin> set (map fst (clients st))"
    and "fst (handshake net sock ad first st) = Leave"
  shows "fst (handle_client net sock ad first evs st) = Left
    \<and> clients (snd (handle_client net sock ad first evs st)) = clients st
    \<and> sock \<in> closed (snd (handle_client net sock ad first evs st))
    \<and> (\<exists>new. trace (snd (handle_client net sock ad first evs st)) = trace st @ new
           \<and> (\<forall>s. Ev_register s \<notin> set new))
    \<and> (\<forall>(s, c) \<in> set (clients st).
          queues (snd (handle_client net sock ad first evs st)) (queue c) =
            queues st (queue c)
            @ [Some (ascii '' Desconocido abandon'' @ [0xC3, 0xB3] @ ascii '' el chat.'' @ [0x0A])])
    \<and> (fst (handshake net sock ad first st) = Leave \<longleftrightarrow>
          sock \<in> closed st \<or> \<not> net sock (length (sent st sock))
          \<or> first = Timeout \<or> first = Conn_error \<or> first = Other_error \<or> first = Data [])"
  using failed_handshake_effects [OF assms, of evs] handshake_Leave_iff [of net sock ad first st]
  by blast

theorem failed_handshake_leave_notice_witness:
  "registry_ok chat_ana_leo \<and> 3 \<notin> set (map fst (clients chat_ana_leo))
   \<and> fst (handshake net_up 3 peer (Data []) chat_ana_leo) = Leave
   \<and> fst (handle_client net_up 3 peer (Data []) [] chat_ana_leo) = Left
   \<and> 3 \<in> closed (snd (handle_client net_up 3 peer (Data []) [] chat_ana_leo))
   \<and> clients (snd (handle_client net_up 3 peer (Data []) [] chat_ana_leo)) = clients chat_ana_leo"
  using failed_handshake_leave_notice [OF registry_ok_chat_ana_leo fresh_3_chat
      handshake_empty_chat, of "[]"]
    registry_ok_chat_ana_leo fresh_3_chat handshake_empty_chat
  by blast

text \<open>
  C4. A client that sends an empty handshake payload: a chunk of which nothing is left once
  it is decoded and stripped of white space (a lone line terminator, say; a read of no
  bytes at all is the peer's close, see C3). When the welcome could be sent, the server
  gives the client the name \<^verbatim>\<open>Anon\<close>, registers it with its new queue, starts its
  sender and enters the receive loop. The client can send: unless the server is shutting
  down, the next chunk it sends is broadcast under the name \<^verbatim>\<open>Anon\<close>, and the thread
  goes on reading; every other registered client gets these bytes at the end of its queue.
  The client can receive: a broadcast by any other connection puts its payload on the
  client's queue, and the client's sender writes it to the client's socket when the write
  succeeds.
\<close>

theorem blank_name_becomes_anon:
  assumes "sock \<notin> closed st" and "net sock (length (sent st sock))" and "data \<noteq> []"
    and "strip (decode data) = []"
  shows "\<exists>fr st'. handshake net sock ad (Data data) st = (Proceed ANON, fr, st')
    \<and> fr_name fr = Some ANON \<and> send_queue fr = next_qid st \<and> send_thread fr
    \<and> map_of (clients st') sock = Some \<lparr>name = ANON, queue = next_qid st, addr = ad\<rparr>
    \<and> sock \<notin> closed st'
    \<and> (\<not> shutting_down st \<longrightarrow>
          (\<forall>data2. data2 \<noteq> [] \<longrightarrow>
             (\<exists>m2. encode (chat_line ANON (terminate_line (decode data2))) = Some m2
                \<and> handle_client net sock ad (Data data) [Data data2] st
                     = (Blocked, broadcast m2 (Some sock) st'))))
    \<and> (registry_ok st \<longrightarrow> registry_ok st'
          \<and> (\<forall>m2. \<forall>(s, c) \<in> set (clients st'). s \<noteq> sock \<longrightarrow>
                queues (broadcast m2 (Some sock) st') (queue c) = queues st' (queue c) @ [Some m2])
          \<and> (\<forall>m other. other \<noteq> Some sock \<longrightarrow>
                queues (broadcast m other st') (next_qid st) = [Some m]
                \<and> (net sock (length (sent st' sock)) \<longrightarrow>
                     (\<exists>st2. sender_thread_func net sock (next_qid st) (broadcast m other st')
                               = (Blocked, st2)
                        \<and> sent st2 sock = sent st' sock @ [m]))))"
proof -
  from assms obtain fr st' where h:
    "handshake net sock ad (Data data) st = (Proceed ANON, fr, st')"
    "fr = \<lparr>fr_name = Some ANON, send_queue = next_qid st, send_thread = True\<rparr>"
    "map_of (clients st') sock = Some \<lparr>name = ANON, queue = next_qid st, addr = ad\<rparr>"
    "closed st' = closed st" "shutting_down st' = shutting_down st"
    "sent st' sock = sent st sock @ [WELCOME_BYTES]"
    "set (map fst (clients st')) = insert sock (set (map fst (clients st)))"
    "registry_ok st \<longrightarrow> registry_ok st'"
    "registry_ok st \<longrightarrow> queues st' (next_qid st) = []"
    by (rule blank_active [where ad = ad])
  let ?c = "\<lparr>name = ANON, queue = next_qid st, addr = ad\<rparr>"
  have open': "sock \<notin> closed st'" using assms(1) h(4) by simp
  have send: "\<exists>m2. encode (chat_line ANON (terminate_line (decode data2))) = Some m2
                \<and> handle_client net sock ad (Data data) [Data data2] st
                     = (Blocked, broadcast m2 (Some sock) st')"
    if up: "\<not> shutting_down st" and d2: "data2 \<noteq> []" for data2
  proof -
    from on_data_broadcast [OF d2 valid_ANON, of sock st'] obtain m2 where m2:
      "encode (chat_line ANON (terminate_line (decode data2))) = Some m2"
      "on_data sock ANON data2 st' = Some (broadcast m2 (Some sock) st')"
      by blast
    from up h(5) open' m2(2)
    have "recv_loop sock ANON [Data data2] st' = (Blocked, broadcast m2 (Some sock) st')"
      by (simp add: recv_def)
    with h(1) have "handle_client net sock ad (Data data) [Data data2] st
                     = (Blocked, broadcast m2 (Some sock) st')"
      by (simp add: handle_client_def)
    with m2(1) show ?thesis by blast
  qed
  have recv: "registry_ok st'
          \<and> (\<forall>m2. \<forall>(s, c) \<in> set (clients st'). s \<noteq> sock \<longrightarrow>
                queues (broadcast m2 (Some sock) st') (queue c) = queues st' (queue c) @ [Some m2])
          \<and> (\<forall>m other. other \<noteq> Some sock \<longrightarrow>
                queues (broadcast m other st') (next_qid st) = [Some m]
                \<and> (net sock (length (sent st' sock)) \<longrightarrow>
                     (\<exists>st2. sender_thread_func net sock (next_qid st) (broadcast m other st')
                               = (Blocked, st2)
                        \<and> sent st2 sock = sent st' sock @ [m])))"
    if ok: "registry_ok st"
  proof (intro conjI allI impI ballI)
    from h(8) ok show ok': "registry_ok st'" by blast
    from h(3) have mem: "(sock, ?c) \<in> set (clients st')" by (rule map_of_SomeD)
    show "case p of (s, c) \<Rightarrow> s \<noteq> sock \<longrightarrow>
                queues (broadcast m2 (Some sock) st') (queue c) = queues st' (queue c) @ [Some m2]"
      if "p \<in> set (clients st')" for p m2
    proof -
      obtain s c where p: "p = (s, c)" by (cases p)
      with that queues_broadcast_registered [OF ok', of s c m2 "Some sock"]
      show ?thesis by simp
    qed
    fix m other assume o: "other \<noteq> Some sock"
    from queues_broadcast_registered [OF ok' mem, of m other] o h(9) ok
    show q: "queues (broadcast m other st') (next_qid st) = [Some m]" by simp
    assume n: "net sock (length (sent st' sock))"
    from sender_blocks [where pre = "[Some m]" and sock = sock and st = "broadcast m other st'"
        and net = net and q = "next_qid st"] q open' n
    show "\<exists>st2. sender_thread_func net sock (next_qid st) (broadcast m other st') = (Blocked, st2)
                        \<and> sent st2 sock = sent st' sock @ [m]"
      by auto
  qed
  from h(1,2,3) open' send recv show ?thesis by simp
qed

theorem blank_name_becomes_anon_witness:
  "1 \<notin> closed init \<and> net_up 1 (length (sent init 1)) \<and> [0x0A] \<noteq> ([] :: bytes)
   \<and> strip (decode [0x0A]) = [] \<and> \<not> shutting_down init \<and> ascii ''hi'' \<noteq> []
   \<and> (\<exists>fr st'. handshake net_up 1 peer (Data [0x0A]) init = (Proceed ANON, fr, st')
         \<and> map_of (clients st') 1 = Some \<lparr>name = ANON, queue = 0, addr = peer\<rparr>
         \<and> handle_client net_up 1 peer (Data [0x0A]) [Data (ascii ''hi'')] init
             = (Blocked, broadcast (ascii ''Anon: hi'' @ [0x0A]) (Some 1) st'))"
proof -
  have a: "1 \<notin> closed init" by (simp add: init_def)
  have b: "net_up 1 (length (sent init 1))" by (simp add: net_up_def)
  have c: "[0x0A] \<noteq> ([] :: bytes)" by simp
  have d: "strip (decode [0x0A]) = []" by (rule strip_decode_newline)
  have e: "\<not> shutting_down init" by (simp add: init_def)
  have f: "ascii ''hi'' \<noteq> []" by (simp add: ascii_def)
  have n: "next_qid init = 0" by (simp add: init_def)
  from blank_name_becomes_anon [where sock = 1 and st = init and net = net_up
      and data = "[0x0A]" and ad = peer] a b c d
  obtain fr st' where h: "handshake net_up 1 peer (Data [0x0A]) init = (Proceed ANON, fr, st')"
    "map_of (clients st') 1 = Some \<lparr>name = ANON, queue = 0, addr = peer\<rparr>"
    "\<not> shutting_down init \<longrightarrow>
          (\<forall>data2. data2 \<noteq> [] \<longrightarrow>
             (\<exists>m2. encode (chat_line ANON (terminate_line (decode data2))) = Some m2
                \<and> handle_client net_up 1 peer (Data [0x0A]) [Data data2] init
                     = (Blocked, broadcast m2 (Some 1) st')))"
    unfolding n by blast
  from h(3) e f have "\<exists>m2. encode (chat_line ANON (terminate_line (decode (ascii ''hi'')))) = Some m2
                \<and> handle_client net_up 1 peer (Data [0x0A]) [Data (ascii ''hi'')] init
                     = (Blocked, broadcast m2 (Some 1) st')"
    by blast
  then have "handle_client net_up 1 peer (Data [0x0A]) [Data (ascii ''hi'')] init
             = (Blocked, broadcast (ascii ''Anon: hi'' @ [0x0A]) (Some 1) st')"
    unfolding encode_Anon_hi by simp
  with h(1,2) have "\<exists>fr st'. handshake net_up 1 peer (Data [0x0A]) init = (Proceed ANON, fr, st')
         \<and> map_of (clients st') 1 = Some \<lparr>name = ANON, queue = 0, addr = peer\<rparr>
         \<and> handle_client net_up 1 peer (Data [0x0A]) [Data (ascii ''hi'')] init
             = (Blocked, broadcast (ascii ''Anon: hi'' @ [0x0A]) (Some 1) st')"
    by blast
  with a b c d e f show ?thesis by blast
qed

text \<open>
  C5, as stated, fails, in two ways. The shutdown queues the sentinel of a client that is
  still in the registry: with Ana and Leo connected, after the two rounds of the shutdown
  loop Leo's queue holds the sentinel and Leo is still registered; the cleanup of Ana's
  thread then broadcasts her leave notice, which is appended to Leo's queue behind the
  sentinel. And a broadcast puts on the queues that were registered when it took its
  snapshot: Leo's thread takes the snapshot for his chat line (Ana's queue), Ana's thread
  then runs its cleanup, and the put of Leo's thread lands on Ana's queue behind her
  sentinel.
\<close>

theorem sentinel_then_payload_counterexample:
  "queues (close_client 2 (close_client 1 chat_ana_leo)) 1 = [None]
   \<and> 2 \<in> set (map fst (clients (close_client 2 (close_client 1 chat_ana_leo))))
   \<and> queues (cleanup 1 frame_ana (close_client 2 (close_client 1 chat_ana_leo))) 1 =
       [None, Some (ascii '' Ana abandon'' @ [0xC3, 0xB3] @ ascii '' el chat.'' @ [0x0A])]
   \<and> snapshot (Some 2) chat_ana_leo = [0]
   \<and> queues (run net_up [Do_cleanup 1 frame_ana, Do_put 0 (Some (ascii ''Leo: hi'' @ [0x0A]))]
        chat_ana_leo) 0 =
       [Some (ascii '' Leo se uni'' @ [0xC3, 0xB3] @ ascii '' al chat.'' @ [0x0A]), None,
        Some (ascii ''Leo: hi'' @ [0x0A])]"
proof -
  have 1: "queues (close_client 2 (close_client 1 chat_ana_leo)) 1 = [None]
   \<and> 2 \<in> set (map fst (clients (close_client 2 (close_client 1 chat_ana_leo))))
   \<and> queues (cleanup 1 frame_ana (close_client 2 (close_client 1 chat_ana_leo))) 1 =
       [None, Some (ascii '' Ana abandon'' @ [0xC3, 0xB3] @ ascii '' el chat.'' @ [0x0A])]"
    unfolding shutdown_rounds_chat
    unfolding frame_ana_eq chat_ana_leo_eq
    by (simp add: cleanup_def deregister_def dict_pop_def encode_leave_Ana broadcast_def
        snapshot_def put_def safe_close_eq join_sender_def Let_def)
  have 2: "snapshot (Some 2) chat_ana_leo = [0]"
    by (simp add: snapshot_def chat_ana_leo_eq)
  have 3: "queues (run net_up [Do_cleanup 1 frame_ana, Do_put 0 (Some (ascii ''Leo: hi'' @ [0x0A]))]
        chat_ana_leo) 0 =
       [Some (ascii '' Leo se uni'' @ [0xC3, 0xB3] @ ascii '' al chat.'' @ [0x0A]), None,
        Some (ascii ''Leo: hi'' @ [0x0A])]"
    unfolding run_Cons run_Nil step_cleanup step_put cleanup_ana
    by (simp add: chat_ana_leo_eq)
  from 1 2 3 show ?thesis by blast
qed

text \<open>
  C5, amended. In the cleanup of a client's own thread the client is removed from the
  registry before the sentinel is put on its queue, and a broadcast only targets the
  clients that are in the registry when it takes its snapshot. So from the removal on, in
  every execution, whatever the other threads do in between, no snapshot contains the
  queue, and a broadcast that takes its snapshot after that cleanup leaves the queue as it
  is. (A broadcast that took its snapshot before the removal may still put its payload
  behind the sentinel, and the shutdown of \<open>main\<close> queues the sentinel while the client is
  registered.)
\<close>

theorem cleanup_detaches_queue:
  assumes "registry_ok st" and "map_of (clients st) sock = Some c" and "send_queue fr = queue c"
  shows "sock \<notin> set (map fst (clients (cleanup sock fr st)))
    \<and> queues (cleanup sock fr st) (queue c) = queues st (queue c) @ [None]
    \<and> (\<exists>mid rest. trace (cleanup sock fr st)
           = trace st @ Ev_pop sock # mid @ Ev_put (queue c) None # rest)
    \<and> (\<forall>acts. detached (queue c) (run net acts (cleanup sock fr st))
          \<and> (\<forall>ex. queue c \<notin> set (snapshot ex (run net acts (cleanup sock fr st))))
          \<and> (\<forall>m ex. queues (broadcast m ex (run net acts (cleanup sock fr st))) (queue c)
                   = queues (run net acts (cleanup sock fr st)) (queue c)))
    \<and> (\<forall>nm acts ex.
          queue c \<notin> set (snapshot ex (run net (Do_deregister sock nm # acts) st)))"
  using cleanup_registered [OF assms]
    detached_run [OF cleanup_registered(3) [OF assms], where net = net]
    detached_run(2) [OF detached_after_deregister [OF assms(1,2)], where net = net]
  by simp

theorem cleanup_detaches_queue_witness:
  "registry_ok chat_ana_leo
   \<and> map_of (clients chat_ana_leo) 1 = Some \<lparr>name = ascii ''Ana'', queue = 0, addr = peer\<rparr>
   \<and> send_queue frame_ana = queue \<lparr>name = ascii ''Ana'', queue = 0, addr = peer\<rparr>
   \<and> 1 \<notin> set (map fst (clients (cleanup 1 frame_ana chat_ana_leo)))
   \<and> 0 \<notin> set (snapshot (Some 2)
        (run net_up [Do_deregister 1 (Some (ascii ''Ana'')), Do_put 0 None] chat_ana_leo))
   \<and> queues (broadcast (ascii ''x'') None
        (run net_up [Do_handshake 3 peer (Data (ascii ''Eva''))] (cleanup 1 frame_ana chat_ana_leo))) 0
      = queues (run net_up [Do_handshake 3 peer (Data (ascii ''Eva''))]
                 (cleanup 1 frame_ana chat_ana_leo)) 0"
proof -
  have a: "registry_ok chat_ana_leo" by (rule registry_ok_chat_ana_leo)
  have b: "map_of (clients chat_ana_leo) 1 = Some \<lparr>name = ascii ''Ana'', queue = 0, addr = peer\<rparr>"
    by (simp add: chat_ana_leo_eq)
  have c: "send_queue frame_ana = queue \<lparr>name = ascii ''Ana'', queue = 0, addr = peer\<rparr>"
    by (simp add: frame_ana_eq)
  note t = cleanup_detaches_queue [OF a b c, where net = net_up]
  from t have p1: "1 \<notin> set (map fst (clients (cleanup 1 frame_ana chat_ana_leo)))"
    by blast
  from t have "\<forall>acts m ex.
      queues (broadcast m ex (run net_up acts (cleanup 1 frame_ana chat_ana_leo))) 0
        = queues (run net_up acts (cleanup 1 frame_ana chat_ana_leo)) 0"
    by simp
  then have p2: "queues (broadcast (ascii ''x'') None
        (run net_up [Do_handshake 3 peer (Data (ascii ''Eva''))] (cleanup 1 frame_ana chat_ana_leo))) 0
      = queues (run net_up [Do_handshake 3 peer (Data (ascii ''Eva''))]
                 (cleanup 1 frame_ana chat_ana_leo)) 0"
    by blast
  from t have "\<forall>nm acts ex. 0 \<notin> set (snapshot ex (run net_up (Do_deregister 1 nm # acts) chat_ana_leo))"
    by simp
  then have p3: "0 \<notin> set (snapshot (Some 2)
        (run net_up [Do_deregister 1 (Some (ascii ''Ana'')), Do_put 0 None] chat_ana_leo))"
    by blast
  from a b c p1 p2 p3 show ?thesis by blast
qed







end
